theory Spec2Isabelle
  imports Main "HOL-Library.Word"
begin

section \<open>The Post entity (internal/domain/entities/post.go)\<close>

text \<open>
  Go's \<open>int\<close> is a 64-bit two's complement integer on the platforms the service is built
  for; \<open>+\<close> wraps around silently and comparisons are signed. It is modelled as a 64-bit
  word, read through \<open>sint\<close> wherever the source compares two values.
\<close>

type_synonym goint = "64 word"

definition MaxInt :: int where
  "MaxInt = 2 ^ 63 - 1"

record Post =
  ID :: goint
  Title :: string
  Content :: string
  Author :: string

text \<open>
  The error values of the program: the four messages of \<open>Validate\<close> and the two sentinel
  errors of the repository package. \<open>Error\<close> is the message each one carries.
\<close>

datatype error =
    TitleRequired | ContentRequired | AuthorRequired | TitleTooLong
  | ErrPostNotFound | ErrPostExists

fun Error :: "error \<Rightarrow> string" where
  "Error TitleRequired = ''title is required''"
| "Error ContentRequired = ''content is required''"
| "Error AuthorRequired = ''author is required''"
| "Error TitleTooLong = ''title must be less than 255 characters''"
| "Error ErrPostNotFound = ''post not found''"
| "Error ErrPostExists = ''post already exists''"

subsection \<open>strings.TrimSpace\<close>

text \<open>
  A Go string is a sequence of bytes, here a \<open>string\<close> (a list of 8-bit characters), and
  \<open>len\<close> is its number of bytes. The library function \<open>strings.TrimSpace\<close> removes all
  leading and trailing white space, as defined by Unicode, from the UTF-8 text: the runes
  U+0009 to U+000D, U+0020, U+0085, U+00A0, U+1680, U+2000 to U+200A, U+2028, U+2029,
  U+202F, U+205F and U+3000. \<open>spaceRunes\<close> lists their UTF-8 encodings. A string starts
  (ends) with a white-space rune exactly when it starts (ends) with one of these byte
  sequences, since Go's decoder accepts only the shortest encoding of a rune and reads every
  malformed byte as the one-byte rune U+FFFD, which is not white space.
\<close>

definition spaceRunes :: "string list" where
  "spaceRunes =
    [[CHR 0x09], [CHR 0x0A], [CHR 0x0B], [CHR 0x0C], [CHR 0x0D], [CHR 0x20],
     [CHR 0xC2, CHR 0x85], [CHR 0xC2, CHR 0xA0],
     [CHR 0xE1, CHR 0x9A, CHR 0x80],
     [CHR 0xE2, CHR 0x80, CHR 0x80], [CHR 0xE2, CHR 0x80, CHR 0x81],
     [CHR 0xE2, CHR 0x80, CHR 0x82], [CHR 0xE2, CHR 0x80, CHR 0x83],
     [CHR 0xE2, CHR 0x80, CHR 0x84], [CHR 0xE2, CHR 0x80, CHR 0x85],
     [CHR 0xE2, CHR 0x80, CHR 0x86], [CHR 0xE2, CHR 0x80, CHR 0x87],
     [CHR 0xE2, CHR 0x80, CHR 0x88], [CHR 0xE2, CHR 0x80, CHR 0x89],
     [CHR 0xE2, CHR 0x80, CHR 0x8A],
     [CHR 0xE2, CHR 0x80, CHR 0xA8], [CHR 0xE2, CHR 0x80, CHR 0xA9],
     [CHR 0xE2, CHR 0x80, CHR 0xAF],
     [CHR 0xE2, CHR 0x81, CHR 0x9F],
     [CHR 0xE3, CHR 0x80, CHR 0x80]]"

definition leadingSpace :: "string \<Rightarrow> string option" where
  "leadingSpace s = find (\<lambda>e. take (length e) s = e) spaceRunes"

definition trailingSpace :: "string \<Rightarrow> string option" where
  "trailingSpace s = find (\<lambda>e. take (length e) (rev s) = rev e) spaceRunes"

function TrimLeft :: "string \<Rightarrow> string" where
  "TrimLeft s = (case leadingSpace s of
                   None \<Rightarrow> s
                 | Some e \<Rightarrow> TrimLeft (drop (length e) s))"
  by pat_completeness auto
termination
proof (relation "measure length")
  show "wf (measure length)" by simp
next
  fix s e :: string
  assume "leadingSpace s = Some e"
  then have "e \<in> set spaceRunes" and t: "take (length e) s = e"
    by (auto simp: leadingSpace_def find_Some_iff)
  then have "e \<noteq> []" by (auto simp: spaceRunes_def)
  with t have "s \<noteq> []" by auto
  with \<open>e \<noteq> []\<close> show "(drop (length e) s, s) \<in> measure length" by simp
qed

function TrimRight :: "string \<Rightarrow> string" where
  "TrimRight s = (case trailingSpace s of
                    None \<Rightarrow> s
                  | Some e \<Rightarrow> TrimRight (take (length s - length e) s))"
  by pat_completeness auto
termination
proof (relation "measure length")
  show "wf (measure length)" by simp
next
  fix s e :: string
  assume "trailingSpace s = Some e"
  then have "e \<in> set spaceRunes" and t: "take (length e) (rev s) = rev e"
    by (auto simp: trailingSpace_def find_Some_iff)
  then have "e \<noteq> []" by (auto simp: spaceRunes_def)
  with t have "s \<noteq> []" by auto
  with \<open>e \<noteq> []\<close> show "(take (length s - length e) s, s) \<in> measure length" by simp
qed

definition TrimSpace :: "string \<Rightarrow> string" where
  "TrimSpace s = TrimRight (TrimLeft s)"

declare TrimLeft.simps [simp del] TrimRight.simps [simp del]


subsection \<open>Validate, NewPost and Update\<close>

text \<open>
  \<open>Validate\<close> returns the first error of the source's chain of checks, \<open>None\<close> for Go's
  \<open>nil\<close>. \<open>NewPost\<close> returns the error or the new post. \<open>Update\<close> works on a pointer
  receiver: the model returns the error together with the receiver after the call.
\<close>

definition Validate :: "Post \<Rightarrow> error option" where
  "Validate p =
    (if TrimSpace (Title p) = [] then Some TitleRequired
     else if TrimSpace (Content p) = [] then Some ContentRequired
     else if TrimSpace (Author p) = [] then Some AuthorRequired
     else if length (Title p) > 255 then Some TitleTooLong
     else None)"

definition NewPost :: "goint \<Rightarrow> string \<Rightarrow> string \<Rightarrow> string \<Rightarrow> error + Post" where
  "NewPost i title content author =
    (let post = \<lparr>ID = i, Title = title, Content = content, Author = author\<rparr>
     in case Validate post of
          Some err \<Rightarrow> Inl err
        | None \<Rightarrow> Inr post)"

definition Update :: "Post \<Rightarrow> string \<Rightarrow> string \<Rightarrow> string \<Rightarrow> error option \<times> Post" where
  "Update p title content author =
    (let temp = \<lparr>ID = ID p, Title = title, Content = content, Author = author\<rparr>
     in case Validate temp of
          Some err \<Rightarrow> (Some err, p)
        | None \<Rightarrow> (None, p\<lparr>Title := title, Content := content, Author := author\<rparr>))"

section \<open>The in-memory repository (internal/infrastructure/repositories/memory_post_repository.go)\<close>

text \<open>
  Every method takes the lock for its whole body, so a call is one atomic transition of
  the state; the mutex itself is not part of the model. In this first model the map holds
  the posts themselves: the source stores and returns pointers to private copies, and the
  model with pointers further down shows that no pointer is shared with a caller.
  A method returns its Go result together with the repository after the call.
\<close>

record MemoryPostRepository =
  posts :: "goint \<rightharpoonup> Post"
  nextID :: goint

definition NewMemoryPostRepository :: MemoryPostRepository where
  "NewMemoryPostRepository = \<lparr>posts = Map.empty, nextID = 1\<rparr>"

definition Create :: "MemoryPostRepository \<Rightarrow> Post \<Rightarrow> error option \<times> MemoryPostRepository" where
  "Create r post =
    (if posts r (ID post) \<noteq> None then (Some ErrPostExists, r)
     else (None, r\<lparr>posts := (posts r)(ID post \<mapsto> post),
                    nextID := (if sint (ID post) \<ge> sint (nextID r) then ID post + 1
                               else nextID r)\<rparr>))"

definition CreatePost ::
  "MemoryPostRepository \<Rightarrow> string \<Rightarrow> string \<Rightarrow> string
     \<Rightarrow> (error + Post) \<times> MemoryPostRepository" where
  "CreatePost r title content author =
    (let i = nextID r;
         r1 = r\<lparr>nextID := nextID r + 1\<rparr>
     in case NewPost i title content author of
          Inl err \<Rightarrow> (Inl err, r1)
        | Inr post \<Rightarrow> (Inr post, r1\<lparr>posts := (posts r1)(ID post \<mapsto> post)\<rparr>))"

definition GetByID :: "MemoryPostRepository \<Rightarrow> goint \<Rightarrow> error + Post" where
  "GetByID r i =
    (case posts r i of
       None \<Rightarrow> Inl ErrPostNotFound
     | Some post \<Rightarrow> Inr post)"

text \<open>
  \<open>GetAll\<close> ranges over the map, whose iteration order Go leaves unspecified, and then
  sorts by ID. The order of the iteration is the parameter \<open>ks\<close>: any list that holds
  every key of the map once (\<open>rangeOrder\<close>). \<open>sort.Slice\<close> is not stable; the model sorts
  with \<open>sort_key\<close>, and the two agree whenever the IDs are distinct.
\<close>

definition rangeOrder :: "('k \<rightharpoonup> 'v) \<Rightarrow> 'k list \<Rightarrow> bool" where
  "rangeOrder m ks \<longleftrightarrow> distinct ks \<and> set ks = dom m"

definition GetAll :: "goint list \<Rightarrow> MemoryPostRepository \<Rightarrow> Post list \<times> error option" where
  "GetAll ks r =
    (let collected = List.map_filter (posts r) ks
     in (sort_key (\<lambda>p. sint (ID p)) collected, None))"

definition Repo_Update ::
  "MemoryPostRepository \<Rightarrow> goint \<Rightarrow> Post \<Rightarrow> error option \<times> MemoryPostRepository" where
  "Repo_Update r i post =
    (if posts r i = None then (Some ErrPostNotFound, r)
     else (None, r\<lparr>posts := (posts r)(i \<mapsto> post\<lparr>ID := i\<rparr>)\<rparr>))"

definition Delete :: "MemoryPostRepository \<Rightarrow> goint \<Rightarrow> error option \<times> MemoryPostRepository" where
  "Delete r i =
    (if posts r i = None then (Some ErrPostNotFound, r)
     else (None, r\<lparr>posts := (posts r)(i := None)\<rparr>))"

definition Exists :: "MemoryPostRepository \<Rightarrow> goint \<Rightarrow> bool" where
  "Exists r i \<longleftrightarrow> posts r i \<noteq> None"

fun LoadData_loop :: "MemoryPostRepository \<Rightarrow> Post list \<Rightarrow> MemoryPostRepository" where
  "LoadData_loop r [] = r"
| "LoadData_loop r (post # rest) =
     LoadData_loop
       (r\<lparr>posts := (posts r)(ID post \<mapsto> post),
          nextID := (if sint (ID post) \<ge> sint (nextID r) then ID post + 1 else nextID r)\<rparr>)
       rest"

definition LoadData ::
  "MemoryPostRepository \<Rightarrow> Post list \<Rightarrow> error option \<times> MemoryPostRepository" where
  "LoadData r ps = (None, LoadData_loop r ps)"

subsection \<open>Sequences of calls\<close>

text \<open>
  The calls that can change the repository, and the state a sequence of them leaves
  behind when it starts from a given repository.
\<close>

datatype op =
    OpCreatePost string string string
  | OpCreate Post
  | OpUpdate goint Post
  | OpDelete goint
  | OpLoadData "Post list"

fun exec :: "op \<Rightarrow> MemoryPostRepository \<Rightarrow> MemoryPostRepository" where
  "exec (OpCreatePost title content author) r = snd (CreatePost r title content author)"
| "exec (OpCreate post) r = snd (Create r post)"
| "exec (OpUpdate i post) r = snd (Repo_Update r i post)"
| "exec (OpDelete i) r = snd (Delete r i)"
| "exec (OpLoadData ps) r = snd (LoadData r ps)"

definition run :: "op list \<Rightarrow> MemoryPostRepository \<Rightarrow> MemoryPostRepository" where
  "run ops r = fold exec ops r"

text \<open>
  A call stays in range when the increment it may perform does not wrap around: the
  counter is below the largest \<open>int\<close> when an ID is generated, and so is every ID that is
  inserted or loaded.
\<close>

fun inRange :: "op \<Rightarrow> MemoryPostRepository \<Rightarrow> bool" where
  "inRange (OpCreatePost title content author) r \<longleftrightarrow> sint (nextID r) < MaxInt"
| "inRange (OpCreate post) r \<longleftrightarrow> sint (ID post) < MaxInt"
| "inRange (OpLoadData ps) r \<longleftrightarrow> list_all (\<lambda>p. sint (ID p) < MaxInt) ps"
| "inRange (OpUpdate i post) r \<longleftrightarrow> True"
| "inRange (OpDelete i) r \<longleftrightarrow> True"

fun allInRange :: "op list \<Rightarrow> MemoryPostRepository \<Rightarrow> bool" where
  "allInRange [] r \<longleftrightarrow> True"
| "allInRange (x # xs) r \<longleftrightarrow> inRange x r \<and> allInRange xs (exec x r)"

section \<open>The post service (internal/application/services/post_service.go)\<close>

text \<open>
  The service holds its repository behind the interface \<open>PostRepository\<close>; the model
  passes the methods that the service functions below call as a record of functions over
  a repository state. Logging does not touch the repository and is left out.
\<close>

record 's PostRepository =
  repoCreatePost :: "'s \<Rightarrow> string \<Rightarrow> string \<Rightarrow> string \<Rightarrow> (error + Post) \<times> 's"
  repoGetByID :: "'s \<Rightarrow> goint \<Rightarrow> (error + Post) \<times> 's"
  repoUpdate :: "'s \<Rightarrow> goint \<Rightarrow> Post \<Rightarrow> error option \<times> 's"
  repoDelete :: "'s \<Rightarrow> goint \<Rightarrow> error option \<times> 's"

definition memoryRepository :: "MemoryPostRepository PostRepository" where
  "memoryRepository =
    \<lparr>repoCreatePost = CreatePost,
     repoGetByID = (\<lambda>r i. (GetByID r i, r)),
     repoUpdate = Repo_Update,
     repoDelete = Delete\<rparr>"

definition Service_CreatePost ::
  "'s PostRepository \<Rightarrow> 's \<Rightarrow> string \<Rightarrow> string \<Rightarrow> string \<Rightarrow> (error + Post) \<times> 's" where
  "Service_CreatePost postRepo s title content author =
     repoCreatePost postRepo s title content author"

definition GetPostByID :: "'s PostRepository \<Rightarrow> 's \<Rightarrow> goint \<Rightarrow> (error + Post) \<times> 's" where
  "GetPostByID postRepo s i = repoGetByID postRepo s i"

definition UpdatePost ::
  "'s PostRepository \<Rightarrow> 's \<Rightarrow> goint \<Rightarrow> string \<Rightarrow> string \<Rightarrow> string \<Rightarrow> (error + Post) \<times> 's" where
  "UpdatePost postRepo s i title content author =
    (case repoGetByID postRepo s i of
       (Inl err, s1) \<Rightarrow> (Inl err, s1)
     | (Inr existingPost, s1) \<Rightarrow>
         (case Update existingPost title content author of
            (Some err, _) \<Rightarrow> (Inl err, s1)
          | (None, updated) \<Rightarrow>
              (case repoUpdate postRepo s1 i updated of
                 (Some err, s2) \<Rightarrow> (Inl err, s2)
               | (None, s2) \<Rightarrow> (Inr updated, s2))))"

definition DeletePost :: "'s PostRepository \<Rightarrow> 's \<Rightarrow> goint \<Rightarrow> error option \<times> 's" where
  "DeletePost postRepo s i = repoDelete postRepo s i"

section \<open>The repository with pointers\<close>

text \<open>
  The source keeps pointers in its map, takes pointers as arguments and returns pointers.
  This second model makes them explicit. The heap maps an address to the post stored
  there; address 0 is \<open>nil\<close>; \<open>fresh\<close> is the next free address, so that taking the address
  of a new variable (\<open>alloc\<close>) never returns an address in use. A method that dereferences
  \<open>nil\<close> panics: the model returns \<open>None\<close>.
\<close>

type_synonym addr = nat

record Heap =
  mem :: "addr \<rightharpoonup> Post"
  fresh :: addr

definition nil :: addr where
  "nil = 0"

definition emptyHeap :: Heap where
  "emptyHeap = \<lparr>mem = Map.empty, fresh = 1\<rparr>"

definition alloc :: "Heap \<Rightarrow> Post \<Rightarrow> addr \<times> Heap" where
  "alloc h v = (fresh h, h\<lparr>mem := (mem h)(fresh h \<mapsto> v), fresh := Suc (fresh h)\<rparr>)"

record MemoryPostRepositoryP =
  postsP :: "goint \<rightharpoonup> addr"
  nextIDP :: goint

definition NewMemoryPostRepositoryP :: MemoryPostRepositoryP where
  "NewMemoryPostRepositoryP = \<lparr>postsP = Map.empty, nextIDP = 1\<rparr>"

definition NewPostP :: "Heap \<Rightarrow> goint \<Rightarrow> string \<Rightarrow> string \<Rightarrow> string \<Rightarrow> (error + addr) \<times> Heap" where
  "NewPostP h i title content author =
    (let (post, h1) = alloc h \<lparr>ID = i, Title = title, Content = content, Author = author\<rparr>
     in case Validate \<lparr>ID = i, Title = title, Content = content, Author = author\<rparr> of
          Some err \<Rightarrow> (Inl err, h1)
        | None \<Rightarrow> (Inr post, h1))"

definition CreateP ::
  "Heap \<Rightarrow> MemoryPostRepositoryP \<Rightarrow> addr
     \<Rightarrow> (error option \<times> Heap \<times> MemoryPostRepositoryP) option" where
  "CreateP h r post =
    (case mem h post of
       None \<Rightarrow> None
     | Some v \<Rightarrow>
         if postsP r (ID v) \<noteq> None then Some (Some ErrPostExists, h, r)
         else let (postCopy, h1) = alloc h v
              in Some (None, h1,
                       r\<lparr>postsP := (postsP r)(ID v \<mapsto> postCopy),
                         nextIDP := (if sint (ID v) \<ge> sint (nextIDP r) then ID v + 1
                                     else nextIDP r)\<rparr>))"

definition CreatePostP ::
  "Heap \<Rightarrow> MemoryPostRepositoryP \<Rightarrow> string \<Rightarrow> string \<Rightarrow> string
     \<Rightarrow> ((error + addr) \<times> Heap \<times> MemoryPostRepositoryP) option" where
  "CreatePostP h r title content author =
    (let i = nextIDP r;
         r1 = r\<lparr>nextIDP := nextIDP r + 1\<rparr>
     in case NewPostP h i title content author of
          (Inl err, h1) \<Rightarrow> Some (Inl err, h1, r1)
        | (Inr post, h1) \<Rightarrow>
            (case mem h1 post of
               None \<Rightarrow> None
             | Some v \<Rightarrow>
                 let (postCopy, h2) = alloc h1 v;
                     r2 = r1\<lparr>postsP := (postsP r1)(ID v \<mapsto> postCopy)\<rparr>
                 in (case mem h2 post of
                       None \<Rightarrow> None
                     | Some v2 \<Rightarrow>
                         let (resultCopy, h3) = alloc h2 v2
                         in Some (Inr resultCopy, h3, r2))))"

definition GetByIDP ::
  "Heap \<Rightarrow> MemoryPostRepositoryP \<Rightarrow> goint \<Rightarrow> ((error + addr) \<times> Heap) option" where
  "GetByIDP h r i =
    (case postsP r i of
       None \<Rightarrow> Some (Inl ErrPostNotFound, h)
     | Some post \<Rightarrow>
         (case mem h post of
            None \<Rightarrow> None
          | Some v \<Rightarrow> let (postCopy, h1) = alloc h v in Some (Inr postCopy, h1)))"

fun GetAllP_loop ::
  "Heap \<Rightarrow> MemoryPostRepositoryP \<Rightarrow> goint list \<Rightarrow> addr list \<Rightarrow> (addr list \<times> Heap) option" where
  "GetAllP_loop h r [] ps = Some (ps, h)"
| "GetAllP_loop h r (k # ks) ps =
     (case postsP r k of
        None \<Rightarrow> GetAllP_loop h r ks ps
      | Some post \<Rightarrow>
          (case mem h post of
             None \<Rightarrow> None
           | Some v \<Rightarrow> let (postCopy, h1) = alloc h v in GetAllP_loop h1 r ks (ps @ [postCopy])))"

definition idAt :: "Heap \<Rightarrow> addr \<Rightarrow> int" where
  "idAt h a = (case mem h a of None \<Rightarrow> 0 | Some v \<Rightarrow> sint (ID v))"

definition GetAllP ::
  "goint list \<Rightarrow> Heap \<Rightarrow> MemoryPostRepositoryP \<Rightarrow> ((addr list \<times> error option) \<times> Heap) option" where
  "GetAllP ks h r =
    (case GetAllP_loop h r ks [] of
       None \<Rightarrow> None
     | Some (ps, h1) \<Rightarrow> Some ((sort_key (idAt h1) ps, None), h1))"

definition UpdateP ::
  "Heap \<Rightarrow> MemoryPostRepositoryP \<Rightarrow> goint \<Rightarrow> addr
     \<Rightarrow> (error option \<times> Heap \<times> MemoryPostRepositoryP) option" where
  "UpdateP h r i post =
    (if postsP r i = None then Some (Some ErrPostNotFound, h, r)
     else case mem h post of
            None \<Rightarrow> None
          | Some v \<Rightarrow>
              let (postCopy, h1) = alloc h (v\<lparr>ID := i\<rparr>)
              in Some (None, h1, r\<lparr>postsP := (postsP r)(i \<mapsto> postCopy)\<rparr>))"

definition DeleteP ::
  "Heap \<Rightarrow> MemoryPostRepositoryP \<Rightarrow> goint
     \<Rightarrow> (error option \<times> Heap \<times> MemoryPostRepositoryP) option" where
  "DeleteP h r i =
    (if postsP r i = None then Some (Some ErrPostNotFound, h, r)
     else Some (None, h, r\<lparr>postsP := (postsP r)(i := None)\<rparr>))"

fun LoadDataP_loop ::
  "Heap \<Rightarrow> MemoryPostRepositoryP \<Rightarrow> addr list \<Rightarrow> (Heap \<times> MemoryPostRepositoryP) option" where
  "LoadDataP_loop h r [] = Some (h, r)"
| "LoadDataP_loop h r (post # rest) =
     (case mem h post of
        None \<Rightarrow> None
      | Some v \<Rightarrow>
          let (postCopy, h1) = alloc h v
          in LoadDataP_loop h1
               (r\<lparr>postsP := (postsP r)(ID v \<mapsto> postCopy),
                  nextIDP := (if sint (ID v) \<ge> sint (nextIDP r) then ID v + 1 else nextIDP r)\<rparr>)
               rest)"

definition LoadDataP ::
  "Heap \<Rightarrow> MemoryPostRepositoryP \<Rightarrow> addr list
     \<Rightarrow> (error option \<times> Heap \<times> MemoryPostRepositoryP) option" where
  "LoadDataP h r ps =
    (case LoadDataP_loop h r ps of
       None \<Rightarrow> None
     | Some (h1, r1) \<Rightarrow> Some (None, h1, r1))"

text \<open>
  What the repository holds, read through its pointers: the repository of the first model.
\<close>

definition view :: "Heap \<Rightarrow> MemoryPostRepositoryP \<Rightarrow> MemoryPostRepository" where
  "view h r =
    \<lparr>posts = (\<lambda>k. case postsP r k of None \<Rightarrow> None | Some a \<Rightarrow> mem h a),
     nextID = nextIDP r\<rparr>"

subsection \<open>Callers\<close>

text \<open>
  The code outside the repository holds the pointers it made itself and the pointers the
  repository returned to it (\<open>held\<close>); the map of the repository is an unexported field, so
  no other pointer can reach a caller. A caller can build a post of its own, assign to a
  post through a pointer it holds, and call the methods of the repository with pointers it
  holds or with \<open>nil\<close>.
\<close>

record World =
  heap :: Heap
  repo :: MemoryPostRepositoryP
  held :: "addr set"

definition newWorld :: World where
  "newWorld = \<lparr>heap = emptyHeap, repo = NewMemoryPostRepositoryP, held = {}\<rparr>"

datatype action =
    ANew Post
  | AAssign addr Post
  | ACreate addr
  | ACreatePost string string string
  | AGetByID goint
  | AGetAll "goint list"
  | AUpdate goint addr
  | ADelete goint
  | ALoadData "addr list"

fun possible :: "action \<Rightarrow> World \<Rightarrow> bool" where
  "possible (ANew v) w \<longleftrightarrow> True"
| "possible (AAssign a v) w \<longleftrightarrow> a \<in> held w \<or> a = nil"
| "possible (ACreate a) w \<longleftrightarrow> a \<in> held w \<or> a = nil"
| "possible (ACreatePost title content author) w \<longleftrightarrow> True"
| "possible (AGetByID i) w \<longleftrightarrow> True"
| "possible (AGetAll ks) w \<longleftrightarrow> rangeOrder (postsP (repo w)) ks"
| "possible (AUpdate i a) w \<longleftrightarrow> a \<in> held w \<or> a = nil"
| "possible (ADelete i) w \<longleftrightarrow> True"
| "possible (ALoadData ps) w \<longleftrightarrow> list_all (\<lambda>a. a \<in> held w \<or> a = nil) ps"

fun act :: "action \<Rightarrow> World \<Rightarrow> World option" where
  "act (ANew v) w =
     (let (a, h1) = alloc (heap w) v in Some (w\<lparr>heap := h1, held := insert a (held w)\<rparr>))"
| "act (AAssign a v) w =
     (case mem (heap w) a of
        None \<Rightarrow> None
      | Some _ \<Rightarrow> Some (w\<lparr>heap := (heap w)\<lparr>mem := (mem (heap w))(a \<mapsto> v)\<rparr>\<rparr>))"
| "act (ACreate a) w =
     (case CreateP (heap w) (repo w) a of
        None \<Rightarrow> None
      | Some (err, h1, r1) \<Rightarrow> Some (w\<lparr>heap := h1, repo := r1\<rparr>))"
| "act (ACreatePost title content author) w =
     (case CreatePostP (heap w) (repo w) title content author of
        None \<Rightarrow> None
      | Some (Inl err, h1, r1) \<Rightarrow> Some (w\<lparr>heap := h1, repo := r1\<rparr>)
      | Some (Inr a, h1, r1) \<Rightarrow> Some (w\<lparr>heap := h1, repo := r1, held := insert a (held w)\<rparr>))"
| "act (AGetByID i) w =
     (case GetByIDP (heap w) (repo w) i of
        None \<Rightarrow> None
      | Some (Inl err, h1) \<Rightarrow> Some (w\<lparr>heap := h1\<rparr>)
      | Some (Inr a, h1) \<Rightarrow> Some (w\<lparr>heap := h1, held := insert a (held w)\<rparr>))"
| "act (AGetAll ks) w =
     (case GetAllP ks (heap w) (repo w) of
        None \<Rightarrow> None
      | Some ((ps, err), h1) \<Rightarrow> Some (w\<lparr>heap := h1, held := set ps \<union> held w\<rparr>))"
| "act (AUpdate i a) w =
     (case UpdateP (heap w) (repo w) i a of
        None \<Rightarrow> None
      | Some (err, h1, r1) \<Rightarrow> Some (w\<lparr>heap := h1, repo := r1\<rparr>))"
| "act (ADelete i) w =
     (case DeleteP (heap w) (repo w) i of
        None \<Rightarrow> None
      | Some (err, h1, r1) \<Rightarrow> Some (w\<lparr>heap := h1, repo := r1\<rparr>))"
| "act (ALoadData ps) w =
     (case LoadDataP (heap w) (repo w) ps of
        None \<Rightarrow> None
      | Some (err, h1, r1) \<Rightarrow> Some (w\<lparr>heap := h1, repo := r1\<rparr>))"

fun acts :: "action list \<Rightarrow> World \<Rightarrow> World option" where
  "acts [] w = Some w"
| "acts (x # xs) w =
     (if possible x w then (case act x w of None \<Rightarrow> None | Some w1 \<Rightarrow> acts xs w1) else None)"

section \<open>Invariants\<close>

text \<open>
  The properties of a state that the proofs carry along. \<open>keysBelow\<close>: the counter is
  above every key. \<open>keyed\<close>: every post is stored under its own ID. \<open>sep\<close>, for the
  model with pointers: no pointer held by a caller is kept in the map, every pointer held
  or kept is allocated, and every allocated address is below the next free one.
  \<open>bounded\<close> is the last part alone; \<open>extends\<close> says that a later heap has every allocated
  cell of an earlier one unchanged.
\<close>

abbreviation keysBelow :: "MemoryPostRepository \<Rightarrow> bool" where
  "keysBelow r \<equiv> (\<forall>k. posts r k \<noteq> None \<longrightarrow> sint k < sint (nextID r))"

abbreviation keyed :: "MemoryPostRepository \<Rightarrow> bool" where
  "keyed r \<equiv> (\<forall>k p. posts r k = Some p \<longrightarrow> ID p = k)"

definition sep :: "Heap \<Rightarrow> MemoryPostRepositoryP \<Rightarrow> addr set \<Rightarrow> bool" where
  "sep h r H \<longleftrightarrow>
     (\<forall>a \<in> H. a \<notin> ran (postsP r) \<and> mem h a \<noteq> None)
     \<and> (\<forall>a \<in> ran (postsP r). mem h a \<noteq> None)
     \<and> (\<forall>a. mem h a \<noteq> None \<longrightarrow> 0 < a \<and> a < fresh h)
     \<and> 0 < fresh h"

abbreviation bounded :: "Heap \<Rightarrow> bool" where
  "bounded h \<equiv> (\<forall>a. mem h a \<noteq> None \<longrightarrow> a < fresh h)"

abbreviation extends :: "Heap \<Rightarrow> Heap \<Rightarrow> bool" where
  "extends h h1 \<equiv> (\<forall>a. mem h a \<noteq> None \<longrightarrow> mem h1 a = mem h a)"

section \<open>Properties of the Post entity\<close>

lemma TrimLeft_None: "leadingSpace s = None \<Longrightarrow> TrimLeft s = s"
  by (subst TrimLeft.simps) simp

lemma TrimRight_None: "trailingSpace s = None \<Longrightarrow> TrimRight s = s"
  by (subst TrimRight.simps) simp

lemma leadingSpace_letter: "leadingSpace (CHR ''a'' # s) = None"
  by (simp add: leadingSpace_def spaceRunes_def)

lemma trailingSpace_letter: "trailingSpace (s @ [CHR ''a'']) = None"
  by (simp add: trailingSpace_def spaceRunes_def)

lemma trailingSpace_blank: "trailingSpace (s @ [CHR '' '']) = Some [CHR '' '']"
  by (simp add: trailingSpace_def spaceRunes_def)

lemma TrimRight_blanks: "TrimRight (s @ replicate n CHR '' '') = TrimRight s"
proof (induction n)
  case 0
  show ?case by simp
next
  case (Suc n)
  have "TrimRight (s @ replicate (Suc n) CHR '' '') = TrimRight ((s @ replicate n CHR '' '') @ [CHR '' ''])"
    by (simp add: replicate_append_same)
  also have "\<dots> = TrimRight (s @ replicate n CHR '' '')"
    by (subst TrimRight.simps) (simp add: trailingSpace_blank del: append_assoc)
  finally show ?case using Suc.IH by simp
qed


lemma TrimSpace_letter_blanks: "TrimSpace (CHR ''a'' # replicate n CHR '' '') = ''a''"
proof -
  have "TrimLeft (CHR ''a'' # replicate n CHR '' '') = CHR ''a'' # replicate n CHR '' ''"
    by (simp add: TrimLeft_None leadingSpace_letter)
  moreover have "TrimRight (''a'' @ replicate n CHR '' '') = TrimRight ''a''"
    by (rule TrimRight_blanks)
  moreover have "TrimRight ''a'' = ''a''"
    using TrimRight_None [OF trailingSpace_letter [of "[]"]] by simp
  ultimately show ?thesis by (simp add: TrimSpace_def)
qed

lemma TrimSpace_examples:
  "TrimSpace ''a'' = ''a''" "TrimSpace ''c'' = ''c''" "TrimSpace ''t'' = ''t''"
  "TrimSpace [] = []" "TrimSpace ''   '' = []"
  by (simp_all add: TrimSpace_def TrimLeft.simps TrimRight.simps leadingSpace_def
      trailingSpace_def spaceRunes_def)

lemma NewPost_cases:
  "NewPost i t c a =
     (if TrimSpace t = [] then Inl TitleRequired
      else if TrimSpace c = [] then Inl ContentRequired
      else if TrimSpace a = [] then Inl AuthorRequired
      else if 255 < length t then Inl TitleTooLong
      else Inr \<lparr>ID = i, Title = t, Content = c, Author = a\<rparr>)"
  by (simp add: NewPost_def Validate_def)

lemma Validate_ID_irrelevant: "Validate (p\<lparr>ID := i\<rparr>) = Validate p"
  by (simp add: Validate_def)

lemma NewPost_Validate:
  "NewPost i t c a =
     (case Validate \<lparr>ID = j, Title = t, Content = c, Author = a\<rparr> of
        Some e \<Rightarrow> Inl e | None \<Rightarrow> Inr \<lparr>ID = i, Title = t, Content = c, Author = a\<rparr>)"
  by (simp add: NewPost_def Validate_def)










text \<open>
  Claim C4. For every post \<open>p\<close> and every title, content and author: when the prospective
  state (the ID of \<open>p\<close> with the new fields) fails validation, \<open>Update\<close> returns that
  error and leaves \<open>p\<close> as it was, in all four fields; when it passes, the call returns no
  error, title, content and author are the supplied values and the ID is the one of \<open>p\<close>.
\<close>
theorem Update_all_or_nothing:
  "(Validate \<lparr>ID = ID p, Title = title, Content = content, Author = author\<rparr> = Some err
      \<longrightarrow> Update p title content author = (Some err, p))
   \<and> (Validate \<lparr>ID = ID p, Title = title, Content = content, Author = author\<rparr> = None
      \<longrightarrow> Update p title content author
            = (None, \<lparr>ID = ID p, Title = title, Content = content, Author = author\<rparr>))"
  by (simp add: Update_def)

theorem Update_all_or_nothing_witness:
  "Update \<lparr>ID = 4, Title = ''t'', Content = ''c'', Author = ''a''\<rparr> ''   '' ''c'' ''a''
     = (Some TitleRequired, \<lparr>ID = 4, Title = ''t'', Content = ''c'', Author = ''a''\<rparr>)
   \<and> Update \<lparr>ID = 4, Title = ''t'', Content = ''c'', Author = ''a''\<rparr> ''a'' ''t'' ''c''
     = (None, \<lparr>ID = 4, Title = ''a'', Content = ''t'', Author = ''c''\<rparr>)"
proof -
  let ?p = "\<lparr>ID = 4, Title = ''t'', Content = ''c'', Author = ''a''\<rparr>"
  have v1: "Validate \<lparr>ID = ID ?p, Title = ''   '', Content = ''c'', Author = ''a''\<rparr>
              = Some TitleRequired"
    by (simp add: Validate_def TrimSpace_examples)
  have v2: "Validate \<lparr>ID = ID ?p, Title = ''a'', Content = ''t'', Author = ''c''\<rparr> = None"
    by (simp add: Validate_def TrimSpace_examples)
  from v1 Update_all_or_nothing [of ?p "''   ''" "''c''" "''a''" TitleRequired]
  have 1: "Update ?p ''   '' ''c'' ''a'' = (Some TitleRequired, ?p)" by blast
  from v2 Update_all_or_nothing [of ?p "''a''" "''t''" "''c''"]
  have 2: "Update ?p ''a'' ''t'' ''c''
             = (None, \<lparr>ID = ID ?p, Title = ''a'', Content = ''t'', Author = ''c''\<rparr>)" by blast
  from 1 2 show ?thesis by simp
qed

section \<open>Properties of the repository and the service\<close>

lemma Validate_examples:
  "Validate \<lparr>ID = i, Title = [], Content = ''c'', Author = ''a''\<rparr> = Some TitleRequired"
  "Validate \<lparr>ID = i, Title = ''t'', Content = ''c'', Author = ''a''\<rparr> = None"
  by (simp_all add: Validate_def TrimSpace_examples)

text \<open>
  Claim C10. The length check of \<open>Validate\<close> reads the raw title, not the trimmed one: for
  every title that is not blank after trimming and has more than 255 bytes, \<open>NewPost\<close>
  fails, and it fails with the length message once content and author have passed their
  blank checks, which the source runs before the length check. The length error is
  returned only for titles that are not blank after trimming. One letter followed by 300
  spaces has a trimmed title of one byte and is rejected with the length message.
\<close>
theorem title_length_is_checked_untrimmed:
  "(TrimSpace title \<noteq> [] \<and> 255 < length title \<longrightarrow>
      NewPost i title content author =
        Inl (if TrimSpace content = [] then ContentRequired
             else if TrimSpace author = [] then AuthorRequired
             else TitleTooLong))
   \<and> (NewPost i title content author = Inl TitleTooLong \<longrightarrow>
        TrimSpace title \<noteq> [] \<and> 255 < length title)
   \<and> length (TrimSpace (CHR ''a'' # replicate 300 CHR '' '')) \<le> 255
   \<and> NewPost i (CHR ''a'' # replicate 300 CHR '' '') ''c'' ''a'' = Inl TitleTooLong"
proof -
  have "TrimSpace (CHR ''a'' # replicate 300 CHR '' '') = ''a''"
    by (rule TrimSpace_letter_blanks)
  then show ?thesis
    by (simp add: NewPost_cases TrimSpace_examples)
qed

theorem title_length_is_checked_untrimmed_witness:
  "TrimSpace (CHR ''a'' # replicate 300 CHR '' '') \<noteq> []
   \<and> 255 < length (CHR ''a'' # replicate 300 CHR '' '')
   \<and> NewPost 1 (CHR ''a'' # replicate 300 CHR '' '') ''c'' ''a'' = Inl TitleTooLong
   \<and> NewPost 1 (CHR ''a'' # replicate 300 CHR '' '') [] ''a'' = Inl ContentRequired"
proof -
  let ?t = "CHR ''a'' # replicate 300 CHR '' ''"
  have n: "TrimSpace ?t \<noteq> []"
    by (simp add: TrimSpace_letter_blanks)
  have l: "255 < length ?t" by simp
  from n l title_length_is_checked_untrimmed [of ?t 1 "''c''" "''a''"]
  have "NewPost 1 ?t ''c'' ''a''
          = Inl (if TrimSpace ''c'' = [] then ContentRequired
                 else if TrimSpace ''a'' = [] then AuthorRequired else TitleTooLong)"
    by blast
  then have 1: "NewPost 1 ?t ''c'' ''a'' = Inl TitleTooLong"
    by (simp add: TrimSpace_examples)
  from n l title_length_is_checked_untrimmed [of ?t 1 "[]" "''a''"]
  have "NewPost 1 ?t [] ''a''
          = Inl (if TrimSpace [] = [] then ContentRequired
                 else if TrimSpace ''a'' = [] then AuthorRequired else TitleTooLong)"
    by blast
  then have 2: "NewPost 1 ?t [] ''a'' = Inl ContentRequired"
    by (simp add: TrimSpace_examples)
  from n l 1 2 show ?thesis by blast
qed

text \<open>
  \<open>CreatePost\<close> reads and increments the counter before it builds and validates the post.
  On the new repository, an empty title makes the call fail and leaves the counter at 2; a
  valid call on the new repository receives ID 1, and the valid call after the failed one
  receives ID 2.
\<close>

theorem CreatePost_invalid_keeps_counter_counterexample:
  "CreatePost NewMemoryPostRepository [] ''c'' ''a''
     = (Inl TitleRequired, NewMemoryPostRepository\<lparr>nextID := 2\<rparr>)
   \<and> nextID (snd (CreatePost NewMemoryPostRepository [] ''c'' ''a''))
       \<noteq> nextID NewMemoryPostRepository
   \<and> fst (CreatePost NewMemoryPostRepository ''t'' ''c'' ''a'')
       = Inr \<lparr>ID = 1, Title = ''t'', Content = ''c'', Author = ''a''\<rparr>
   \<and> fst (CreatePost (snd (CreatePost NewMemoryPostRepository [] ''c'' ''a'')) ''t'' ''c'' ''a'')
       = Inr \<lparr>ID = 2, Title = ''t'', Content = ''c'', Author = ''a''\<rparr>"
  by (simp add: CreatePost_def NewMemoryPostRepository_def NewPost_cases TrimSpace_examples)

lemma Validate_fields:
  "Validate \<lparr>ID = i, Title = t, Content = c, Author = a\<rparr>
     = Validate \<lparr>ID = j, Title = t, Content = c, Author = a\<rparr>"
  by (simp add: Validate_def)

lemma Validate_errors:
  "Validate p = Some err \<Longrightarrow> err \<in> {TitleRequired, ContentRequired, AuthorRequired, TitleTooLong}"
  by (auto simp: Validate_def split: if_splits)

lemma NewPost_invalid:
  "Validate \<lparr>ID = j, Title = t, Content = c, Author = a\<rparr> = Some err \<Longrightarrow> NewPost i t c a = Inl err"
  using Validate_fields [of i t c a j] by (simp add: NewPost_def)

lemma NewPost_valid:
  "Validate \<lparr>ID = j, Title = t, Content = c, Author = a\<rparr> = None \<Longrightarrow>
   NewPost i t c a = Inr \<lparr>ID = i, Title = t, Content = c, Author = a\<rparr>"
  using Validate_fields [of i t c a j] by (simp add: NewPost_def)

text \<open>
  Claim C1, as the code has it. For every repository and every invalid title, content and
  author, \<open>CreatePost\<close> fails with the validation error and leaves the map of posts as it
  was, and the counter \<open>nextID\<close> is one more than before: the ID is consumed. A following
  call with valid fields receives the ID after the one the failed call took.
\<close>

theorem CreatePost_invalid_consumes_id:
  assumes "Validate \<lparr>ID = j, Title = title, Content = content, Author = author\<rparr> = Some err"
  shows "CreatePost r title content author = (Inl err, r\<lparr>nextID := nextID r + 1\<rparr>)
    \<and> err \<in> {TitleRequired, ContentRequired, AuthorRequired, TitleTooLong}
    \<and> posts (snd (CreatePost r title content author)) = posts r
    \<and> (Validate \<lparr>ID = j, Title = title2, Content = content2, Author = author2\<rparr> = None \<longrightarrow>
         fst (CreatePost (snd (CreatePost r title content author)) title2 content2 author2)
           = Inr \<lparr>ID = nextID r + 1, Title = title2, Content = content2, Author = author2\<rparr>)"
proof -
  have 1: "CreatePost r title content author = (Inl err, r\<lparr>nextID := nextID r + 1\<rparr>)"
    using NewPost_invalid [OF assms] by (simp add: CreatePost_def Let_def)
  have 2: "fst (CreatePost (r\<lparr>nextID := nextID r + 1\<rparr>) title2 content2 author2)
             = Inr \<lparr>ID = nextID r + 1, Title = title2, Content = content2, Author = author2\<rparr>"
    if "Validate \<lparr>ID = j, Title = title2, Content = content2, Author = author2\<rparr> = None"
    using NewPost_valid [OF that] by (simp add: CreatePost_def Let_def)
  from 1 2 Validate_errors [OF assms] show ?thesis by simp
qed

theorem CreatePost_invalid_consumes_id_witness:
  "CreatePost NewMemoryPostRepository [] ''c'' ''a''
     = (Inl TitleRequired, NewMemoryPostRepository\<lparr>nextID := 2\<rparr>)
   \<and> fst (CreatePost (snd (CreatePost NewMemoryPostRepository [] ''c'' ''a'')) ''t'' ''c'' ''a'')
     = Inr \<lparr>ID = 2, Title = ''t'', Content = ''c'', Author = ''a''\<rparr>"
proof -
  note w = CreatePost_invalid_consumes_id [OF Validate_examples(1),
      where r = NewMemoryPostRepository and ?title2.0 = "''t''" and ?content2.0 = "''c''"
        and ?author2.0 = "''a''"]
  from w have 1: "CreatePost NewMemoryPostRepository [] ''c'' ''a''
      = (Inl TitleRequired, NewMemoryPostRepository\<lparr>nextID := nextID NewMemoryPostRepository + 1\<rparr>)"
    by blast
  from w Validate_examples(2)
  have 2: "fst (CreatePost (snd (CreatePost NewMemoryPostRepository [] ''c'' ''a'')) ''t'' ''c'' ''a'')
      = Inr \<lparr>ID = nextID NewMemoryPostRepository + 1, Title = ''t'', Content = ''c'', Author = ''a''\<rparr>"
    by blast
  have 3: "nextID NewMemoryPostRepository + 1 = 2"
    by (simp add: NewMemoryPostRepository_def)
  from 1 2 show ?thesis unfolding 3 by blast
qed

text \<open>
  Claim C5. For every id and every supplied post: \<open>Repo_Update\<close> fails with the not-found
  error and leaves the repository as it was when the id is not a key of the map; when it
  is, the call succeeds, the value stored under the id is the supplied post with its ID
  field set to the id, whatever ID the supplied post carries, and every other entry and
  the counter are as before.
\<close>
theorem Repo_Update_forces_id:
  "(posts r i = None \<longrightarrow> Repo_Update r i post = (Some ErrPostNotFound, r))
   \<and> (posts r i \<noteq> None \<longrightarrow>
        fst (Repo_Update r i post) = None
        \<and> GetByID (snd (Repo_Update r i post)) i
            = Inr \<lparr>ID = i, Title = Title post, Content = Content post, Author = Author post\<rparr>
        \<and> (\<forall>k. k \<noteq> i \<longrightarrow> posts (snd (Repo_Update r i post)) k = posts r k)
        \<and> nextID (snd (Repo_Update r i post)) = nextID r)
   \<and> Error ErrPostNotFound = ''post not found''"
  by (simp add: Repo_Update_def GetByID_def)

theorem Repo_Update_forces_id_witness:
  "Repo_Update NewMemoryPostRepository 5 \<lparr>ID = 5, Title = ''t'', Content = ''c'', Author = ''a''\<rparr>
     = (Some ErrPostNotFound, NewMemoryPostRepository)
   \<and> GetByID (snd (Repo_Update
        (snd (Create NewMemoryPostRepository \<lparr>ID = 5, Title = ''t'', Content = ''c'', Author = ''a''\<rparr>))
        5 \<lparr>ID = 9, Title = ''a'', Content = ''t'', Author = ''c''\<rparr>)) 5
     = Inr \<lparr>ID = 5, Title = ''a'', Content = ''t'', Author = ''c''\<rparr>"
proof -
  let ?p = "\<lparr>ID = 5, Title = ''t'', Content = ''c'', Author = ''a''\<rparr>"
  let ?q = "\<lparr>ID = 9, Title = ''a'', Content = ''t'', Author = ''c''\<rparr>"
  let ?r = "snd (Create NewMemoryPostRepository ?p)"
  have a: "posts NewMemoryPostRepository 5 = None"
    by (simp add: NewMemoryPostRepository_def)
  have b: "posts ?r 5 \<noteq> None"
    by (simp add: NewMemoryPostRepository_def Create_def)
  from a Repo_Update_forces_id [of NewMemoryPostRepository 5 ?p]
  have 1: "Repo_Update NewMemoryPostRepository 5 ?p = (Some ErrPostNotFound, NewMemoryPostRepository)"
    by blast
  from b Repo_Update_forces_id [of ?r 5 ?q]
  have 2: "GetByID (snd (Repo_Update ?r 5 ?q)) 5
             = Inr \<lparr>ID = 5, Title = Title ?q, Content = Content ?q, Author = Author ?q\<rparr>"
    by blast
  from 1 2 show ?thesis by simp
qed

text \<open>
  Claim C9. For every repository that holds a post under the id and every invalid title,
  content and author: the service's \<open>UpdatePost\<close> on the in-memory repository fails with
  the validation error and returns the repository exactly as it was. The update of the
  entity runs on the value obtained from \<open>GetByID\<close>, and the repository's \<open>Update\<close> is
  not called: the outcome is the same whatever function stands in for it.
\<close>
theorem UpdatePost_invalid_leaves_store:
  assumes "posts r i = Some p"
    and "Validate \<lparr>ID = j, Title = title, Content = content, Author = author\<rparr> = Some err"
  shows "UpdatePost memoryRepository r i title content author = (Inl err, r)
    \<and> err \<in> {TitleRequired, ContentRequired, AuthorRequired, TitleTooLong}
    \<and> (\<forall>u. UpdatePost (memoryRepository\<lparr>repoUpdate := u\<rparr>) r i title content author = (Inl err, r))"
proof -
  have v: "Validate \<lparr>ID = ID p, Title = title, Content = content, Author = author\<rparr> = Some err"
    using assms(2) Validate_fields [of "ID p" title content author j] by simp
  then have u: "Update p title content author = (Some err, p)"
    by (simp add: Update_def)
  have g: "GetByID r i = Inr p"
    using assms(1) by (simp add: GetByID_def)
  have "UpdatePost (memoryRepository\<lparr>repoUpdate := u\<rparr>) r i title content author = (Inl err, r)" for u
    using u g by (simp add: UpdatePost_def memoryRepository_def)
  moreover have "UpdatePost memoryRepository r i title content author = (Inl err, r)"
    using u g by (simp add: UpdatePost_def memoryRepository_def)
  ultimately show ?thesis using Validate_errors [OF assms(2)] by simp
qed

theorem UpdatePost_invalid_leaves_store_witness:
  "UpdatePost memoryRepository
     (snd (Create NewMemoryPostRepository \<lparr>ID = 5, Title = ''t'', Content = ''c'', Author = ''a''\<rparr>))
     5 [] ''c'' ''a''
   = (Inl TitleRequired,
      snd (Create NewMemoryPostRepository \<lparr>ID = 5, Title = ''t'', Content = ''c'', Author = ''a''\<rparr>))"
proof -
  let ?p = "\<lparr>ID = 5, Title = ''t'', Content = ''c'', Author = ''a''\<rparr>"
  have "posts (snd (Create NewMemoryPostRepository ?p)) 5 = Some ?p"
    by (simp add: NewMemoryPostRepository_def Create_def)
  from UpdatePost_invalid_leaves_store [OF this Validate_examples(1)]
  show ?thesis by simp
qed

section \<open>The counter stays above the keys\<close>

lemma sint_succ:
  fixes x :: goint
  assumes "sint x < MaxInt"
  shows "sint (x + 1) = sint x + 1"
proof -
  have lo: "- (2 ^ 63) \<le> sint x"
    using sint_ge [of x] by simp
  have "sint (x + 1) = signed_take_bit 63 (sint x + 1)"
    by (simp add: sint_word_add)
  also have "\<dots> = sint x + 1"
    using assms lo by (intro signed_take_bit_int_eq_self) (auto simp: MaxInt_def)
  finally show ?thesis .
qed

lemma keysBelow_new: "keysBelow NewMemoryPostRepository"
  by (simp add: NewMemoryPostRepository_def)

lemma insert_step:
  assumes "keysBelow r" and "sint (ID post) < MaxInt"
  defines "r' \<equiv> r\<lparr>posts := (posts r)(ID post \<mapsto> post),
                    nextID := (if sint (ID post) \<ge> sint (nextID r) then ID post + 1 else nextID r)\<rparr>"
  shows "keysBelow r'" and "sint (nextID r) \<le> sint (nextID r')"
  using assms(1) sint_succ [OF assms(2)]
  by (auto simp: r'_def)

lemma LoadData_loop_step:
  "keysBelow r \<Longrightarrow> list_all (\<lambda>p. sint (ID p) < MaxInt) ps \<Longrightarrow>
   keysBelow (LoadData_loop r ps) \<and> sint (nextID r) \<le> sint (nextID (LoadData_loop r ps))"
proof (induction ps arbitrary: r)
  case Nil
  then show ?case by simp
next
  case (Cons p ps)
  let ?r = "r\<lparr>posts := (posts r)(ID p \<mapsto> p),
               nextID := (if sint (ID p) \<ge> sint (nextID r) then ID p + 1 else nextID r)\<rparr>"
  from Cons.prems have p: "sint (ID p) < MaxInt" and ps: "list_all (\<lambda>p. sint (ID p) < MaxInt) ps"
    by simp_all
  from insert_step [OF Cons.prems(1) p]
  have k: "keysBelow ?r" and m: "sint (nextID r) \<le> sint (nextID ?r)" by simp_all
  from Cons.IH [OF k ps] m show ?case by simp
qed

lemma exec_step:
  assumes "keysBelow r" and "inRange x r"
  shows "keysBelow (exec x r) \<and> sint (nextID r) \<le> sint (nextID (exec x r))"
proof (cases x)
  case (OpCreatePost t c a)
  with assms(2) have "sint (nextID r + 1) = sint (nextID r) + 1"
    by (simp add: sint_succ)
  with assms(1) OpCreatePost show ?thesis
    by (cases "NewPost (nextID r) t c a")
       (auto simp: CreatePost_def Let_def NewPost_def split: option.splits)
next
  case (OpCreate p)
  with assms insert_step [of r p] show ?thesis
    by (simp add: Create_def)
next
  case (OpUpdate i p)
  with assms(1) show ?thesis
    by (auto simp: Repo_Update_def)
next
  case (OpDelete i)
  with assms(1) show ?thesis
    by (auto simp: Delete_def)
next
  case (OpLoadData ps)
  with assms LoadData_loop_step [of r ps] show ?thesis
    by (simp add: LoadData_def)
qed

lemma run_append: "run (xs @ ys) r = run ys (run xs r)"
  by (simp add: run_def)

lemma run_Cons: "run (x # xs) r = run xs (exec x r)"
  by (simp add: run_def)

lemma allInRange_append: "allInRange (xs @ ys) r \<longleftrightarrow> allInRange xs r \<and> allInRange ys (run xs r)"
  by (induction xs arbitrary: r) (simp_all add: run_def)

lemma run_step:
  "keysBelow r \<Longrightarrow> allInRange xs r \<Longrightarrow>
   keysBelow (run xs r) \<and> sint (nextID r) \<le> sint (nextID (run xs r))"
proof (induction xs arbitrary: r)
  case Nil
  then show ?case by (simp add: run_def)
next
  case (Cons x xs)
  from Cons.prems have x: "inRange x r" and xs: "allInRange xs (exec x r)" by simp_all
  from exec_step [OF Cons.prems(1) x] Cons.IH [OF _ xs]
  show ?case by (auto simp: run_Cons)
qed

lemma CreatePost_result:
  "fst (CreatePost r t c a) = Inr q \<Longrightarrow>
   ID q = nextID r \<and> posts (snd (CreatePost r t c a)) (ID q) = Some q"
  by (cases "Validate \<lparr>ID = nextID r, Title = t, Content = c, Author = a\<rparr>")
     (auto simp: CreatePost_def Let_def NewPost_def)

text \<open>
  Without a bound the invariant fails: the increment of the source wraps around. Inserting
  a post whose ID is the largest \<open>int\<close> sets the counter to the smallest one, which is
  below the key just stored; and a generated ID issued after that insertion is smaller
  than the ID 1 generated before it.
\<close>
theorem nextID_wraps_counterexample:
  "posts (run [OpCreate \<lparr>ID = 0x7FFFFFFFFFFFFFFF, Title = ''t'', Content = ''c'', Author = ''a''\<rparr>]
            NewMemoryPostRepository) 0x7FFFFFFFFFFFFFFF \<noteq> None
   \<and> \<not> sint (0x7FFFFFFFFFFFFFFF :: goint)
        < sint (nextID (run [OpCreate \<lparr>ID = 0x7FFFFFFFFFFFFFFF, Title = ''t'', Content = ''c'',
                                        Author = ''a''\<rparr>] NewMemoryPostRepository))
   \<and> fst (CreatePost NewMemoryPostRepository ''t'' ''c'' ''a'')
       = Inr \<lparr>ID = 1, Title = ''t'', Content = ''c'', Author = ''a''\<rparr>
   \<and> fst (CreatePost
        (run [OpCreatePost ''t'' ''c'' ''a'',
              OpCreate \<lparr>ID = 0x7FFFFFFFFFFFFFFF, Title = ''t'', Content = ''c'', Author = ''a''\<rparr>]
           NewMemoryPostRepository) ''t'' ''c'' ''a'')
       = Inr \<lparr>ID = 0x8000000000000000, Title = ''t'', Content = ''c'', Author = ''a''\<rparr>
   \<and> \<not> sint (1 :: goint) < sint (0x8000000000000000 :: goint)"
  by (simp add: run_def Create_def CreatePost_def Let_def NewMemoryPostRepository_def
      NewPost_cases TrimSpace_examples)

text \<open>
  Claim C2, as the code has it. Take any sequence of calls from the new repository in
  which no increment wraps around (\<open>allInRange\<close>), split anywhere into \<open>ops1\<close> and
  \<open>ops2\<close>. Every key the map held after \<open>ops1\<close>, so every key held now or at any earlier
  time, deleted since or not, is strictly below \<open>nextID\<close> at the end. Consequently an ID
  that \<open>CreatePost\<close> generates at the end is strictly greater than every such key, so a
  deleted ID is not handed out again, and strictly greater than every ID generated before.
\<close>
theorem nextID_above_all_keys:
  assumes "allInRange (ops1 @ ops2) NewMemoryPostRepository"
  shows "(\<forall>k. posts (run ops1 NewMemoryPostRepository) k \<noteq> None \<longrightarrow>
              sint k < sint (nextID (run (ops1 @ ops2) NewMemoryPostRepository)))
    \<and> (\<forall>title content author q.
          fst (CreatePost (run (ops1 @ ops2) NewMemoryPostRepository) title content author) = Inr q \<longrightarrow>
            (\<forall>k. posts (run ops1 NewMemoryPostRepository) k \<noteq> None \<longrightarrow> sint k < sint (ID q))
          \<and> (\<forall>ops0 t c a p.
                ops1 = ops0 @ [OpCreatePost t c a]
                \<and> fst (CreatePost (run ops0 NewMemoryPostRepository) t c a) = Inr p \<longrightarrow>
                  sint (ID p) < sint (ID q)))"
proof -
  let ?r0 = NewMemoryPostRepository
  from assms have r1: "allInRange ops1 ?r0" and r2: "allInRange ops2 (run ops1 ?r0)"
    by (simp_all add: allInRange_append)
  from run_step [OF keysBelow_new r1] have k1: "keysBelow (run ops1 ?r0)" by simp
  from run_step [OF k1 r2]
  have m: "sint (nextID (run ops1 ?r0)) \<le> sint (nextID (run (ops1 @ ops2) ?r0))"
    by (simp add: run_append)
  have a: "sint k < sint (nextID (run (ops1 @ ops2) ?r0))" if "posts (run ops1 ?r0) k \<noteq> None" for k
    using k1 that m by fastforce
  have b: "sint k < sint (ID q)"
    if "fst (CreatePost (run (ops1 @ ops2) ?r0) title content author) = Inr q"
      and "posts (run ops1 ?r0) k \<noteq> None" for title content author q k
    using CreatePost_result [OF that(1)] a [OF that(2)] by simp
  have c: "sint (ID p) < sint (ID q)"
    if q: "fst (CreatePost (run (ops1 @ ops2) ?r0) title content author) = Inr q"
      and o: "ops1 = ops0 @ [OpCreatePost t c a]"
      and p: "fst (CreatePost (run ops0 ?r0) t c a) = Inr p" for title content author q ops0 t c a p
  proof -
    have "run ops1 ?r0 = snd (CreatePost (run ops0 ?r0) t c a)"
      by (simp add: o run_append run_def)
    moreover from CreatePost_result [OF p]
    have "posts (snd (CreatePost (run ops0 ?r0) t c a)) (ID p) = Some p" ..
    ultimately have "posts (run ops1 ?r0) (ID p) \<noteq> None" by simp
    from b [OF q this] show ?thesis .
  qed
  from a b c show ?thesis by blast
qed

theorem nextID_above_all_keys_witness:
  "allInRange ([OpCreatePost ''t'' ''c'' ''a''] @ [OpDelete 1]) NewMemoryPostRepository
   \<and> posts (run [OpCreatePost ''t'' ''c'' ''a''] NewMemoryPostRepository) 1 \<noteq> None
   \<and> posts (run ([OpCreatePost ''t'' ''c'' ''a''] @ [OpDelete 1]) NewMemoryPostRepository) 1 = None
   \<and> sint (1 :: goint)
       < sint (nextID (run ([OpCreatePost ''t'' ''c'' ''a''] @ [OpDelete 1]) NewMemoryPostRepository))
   \<and> fst (CreatePost (run ([OpCreatePost ''t'' ''c'' ''a''] @ [OpDelete 1]) NewMemoryPostRepository)
            ''a'' ''t'' ''c'')
       = Inr \<lparr>ID = 2, Title = ''a'', Content = ''t'', Author = ''c''\<rparr>"
proof -
  let ?ops1 = "[OpCreatePost ''t'' ''c'' ''a'']"
  let ?ops2 = "[OpDelete 1]"
  have r: "allInRange (?ops1 @ ?ops2) NewMemoryPostRepository"
    by (simp add: NewMemoryPostRepository_def MaxInt_def)
  have h: "posts (run ?ops1 NewMemoryPostRepository) 1 \<noteq> None"
    by (simp add: run_def CreatePost_def Let_def NewMemoryPostRepository_def NewPost_cases
        TrimSpace_examples)
  have d: "posts (run (?ops1 @ ?ops2) NewMemoryPostRepository) 1 = None"
    by (simp add: run_def CreatePost_def Delete_def Let_def NewMemoryPostRepository_def
        NewPost_cases TrimSpace_examples)
  have g: "fst (CreatePost (run (?ops1 @ ?ops2) NewMemoryPostRepository) ''a'' ''t'' ''c'')
             = Inr \<lparr>ID = 2, Title = ''a'', Content = ''t'', Author = ''c''\<rparr>"
    by (simp add: run_def CreatePost_def Delete_def Let_def NewMemoryPostRepository_def
        NewPost_cases TrimSpace_examples)
  from nextID_above_all_keys [OF r] h
  have "sint (1 :: goint) < sint (nextID (run (?ops1 @ ?ops2) NewMemoryPostRepository))"
    by blast
  with r h d g show ?thesis by blast
qed

section \<open>Bulk loading\<close>

lemma find_snoc:
  "find P (xs @ [x]) = (case find P xs of None \<Rightarrow> (if P x then Some x else None) | Some y \<Rightarrow> Some y)"
  by (induction xs) simp_all

lemma LoadData_loop_posts:
  "posts (LoadData_loop r ps) k =
     (case find (\<lambda>q. ID q = k) (rev ps) of None \<Rightarrow> posts r k | Some q \<Rightarrow> Some q)"
proof (induction ps arbitrary: r)
  case Nil
  show ?case by simp
next
  case (Cons p ps)
  show ?case
    by (simp add: Cons.IH find_snoc split: option.splits)
qed

lemma find_ID_None: "find (\<lambda>q. ID q = k) ps = None \<longleftrightarrow> k \<notin> ID ` set ps"
  by (auto simp: find_None_iff)

lemma LoadData_loop_nextID:
  "list_all (\<lambda>p. sint (ID p) < MaxInt) ps \<Longrightarrow>
   sint (nextID (LoadData_loop r ps)) = fold max (map (\<lambda>p. sint (ID p) + 1) ps) (sint (nextID r))"
proof (induction ps arbitrary: r)
  case Nil
  show ?case by simp
next
  case (Cons p ps)
  let ?r = "r\<lparr>posts := (posts r)(ID p \<mapsto> p),
               nextID := (if sint (ID p) \<ge> sint (nextID r) then ID p + 1 else nextID r)\<rparr>"
  from Cons.prems have p: "sint (ID p) < MaxInt" and ps: "list_all (\<lambda>p. sint (ID p) < MaxInt) ps"
    by simp_all
  have "sint (nextID ?r) = max (sint (ID p) + 1) (sint (nextID r))"
    using sint_succ [OF p] by simp
  with Cons.IH [OF ps, of ?r] show ?case by simp
qed

lemma fold_max_Max:
  fixes a :: int
  shows "fold max xs a = Max (insert a (set xs))"
  using Max.set_eq_fold [of a xs] by simp

text \<open>
  The counter only ever moves up. After a load that left it at 6, loading a batch whose
  largest ID is 1 leaves it at 6, not at 2. On the new repository, loading a batch whose
  only ID is -3 leaves the counter at 1, so the next generated ID is 1, not -2. A batch
  that holds the largest \<open>int\<close> makes the counter wrap around: with the ID 5 after it the
  counter ends at 6.
\<close>

theorem LoadData_counterexample:
  "nextID (snd (LoadData NewMemoryPostRepository
      [\<lparr>ID = 5, Title = ''t'', Content = ''c'', Author = ''a''\<rparr>])) = 6
   \<and> nextID (snd (LoadData
        (snd (LoadData NewMemoryPostRepository
           [\<lparr>ID = 5, Title = ''t'', Content = ''c'', Author = ''a''\<rparr>]))
        [\<lparr>ID = 1, Title = ''t'', Content = ''c'', Author = ''a''\<rparr>])) = 6
   \<and> (6 :: goint) \<noteq> 1 + 1
   \<and> fst (CreatePost
        (snd (LoadData NewMemoryPostRepository
           [\<lparr>ID = - 3, Title = ''t'', Content = ''c'', Author = ''a''\<rparr>])) ''t'' ''c'' ''a'')
       = Inr \<lparr>ID = 1, Title = ''t'', Content = ''c'', Author = ''a''\<rparr>
   \<and> (1 :: goint) \<noteq> - 3 + 1
   \<and> nextID (snd (LoadData NewMemoryPostRepository
        [\<lparr>ID = 0x7FFFFFFFFFFFFFFF, Title = ''t'', Content = ''c'', Author = ''a''\<rparr>,
         \<lparr>ID = 5, Title = ''t'', Content = ''c'', Author = ''a''\<rparr>])) = 6"
  by (simp add: LoadData_def CreatePost_def Let_def NewMemoryPostRepository_def
      NewPost_cases TrimSpace_examples)

text \<open>
  Claim C7, as the code has it. For every repository and every batch, \<open>LoadData\<close> returns
  no error; afterwards every ID of the batch is a key of the map and holds the last post
  of the batch with that ID, whether or not the key existed before, and every other key is
  as before. When no ID of the batch is the largest \<open>int\<close>, \<open>nextID\<close> is the larger of its
  old value and one past the largest ID of the batch. On the new repository, for a batch
  with such IDs of which at least one is not negative, a following \<open>CreatePost\<close> with valid
  fields returns the largest loaded ID plus one.
\<close>

theorem LoadData_overwrites_and_advances:
  "fst (LoadData r ps) = None
   \<and> (\<forall>p \<in> set ps. posts (snd (LoadData r ps)) (ID p) = find (\<lambda>q. ID q = ID p) (rev ps))
   \<and> (\<forall>k. k \<notin> ID ` set ps \<longrightarrow> posts (snd (LoadData r ps)) k = posts r k)
   \<and> (list_all (\<lambda>p. sint (ID p) < MaxInt) ps \<longrightarrow>
        sint (nextID (snd (LoadData r ps)))
          = Max (insert (sint (nextID r)) ((\<lambda>p. sint (ID p) + 1) ` set ps)))
   \<and> (list_all (\<lambda>p. sint (ID p) < MaxInt) ps \<and> (\<exists>p \<in> set ps. 0 \<le> sint (ID p))
        \<and> Validate \<lparr>ID = j, Title = title, Content = content, Author = author\<rparr> = None \<longrightarrow>
        (\<exists>q. fst (CreatePost (snd (LoadData NewMemoryPostRepository ps)) title content author) = Inr q
             \<and> sint (ID q) = Max ((\<lambda>p. sint (ID p)) ` set ps) + 1))"
proof -
  let ?f = "\<lambda>p. sint (ID p) + 1"
  have 1: "fst (LoadData r ps) = None"
    by (simp add: LoadData_def)
  have 2: "posts (snd (LoadData r ps)) (ID p) = find (\<lambda>q. ID q = ID p) (rev ps)" if "p \<in> set ps" for p
  proof -
    from that have "ID p \<in> ID ` set (rev ps)" by simp
    then have "find (\<lambda>q. ID q = ID p) (rev ps) \<noteq> None"
      by (simp only: find_ID_None not_not)
    then show ?thesis
      by (auto simp: LoadData_def LoadData_loop_posts)
  qed
  have 3: "posts (snd (LoadData r ps)) k = posts r k" if "k \<notin> ID ` set ps" for k
  proof -
    from that have "find (\<lambda>q. ID q = k) (rev ps) = None"
      by (simp add: find_ID_None)
    then show ?thesis by (simp add: LoadData_def LoadData_loop_posts)
  qed
  have 4: "sint (nextID (snd (LoadData r ps))) = Max (insert (sint (nextID r)) (?f ` set ps))"
    if "list_all (\<lambda>p. sint (ID p) < MaxInt) ps" for r
    using LoadData_loop_nextID [OF that, of r]
    by (simp add: LoadData_def fold_max_Max)
  have 5: "\<exists>q. fst (CreatePost (snd (LoadData NewMemoryPostRepository ps)) title content author) = Inr q
             \<and> sint (ID q) = Max ((\<lambda>p. sint (ID p)) ` set ps) + 1"
    if b: "list_all (\<lambda>p. sint (ID p) < MaxInt) ps" and n: "\<exists>p \<in> set ps. 0 \<le> sint (ID p)"
      and v: "Validate \<lparr>ID = j, Title = title, Content = content, Author = author\<rparr> = None"
  proof -
    let ?r = "snd (LoadData NewMemoryPostRepository ps)"
    let ?g = "\<lambda>p. sint (ID p)"
    from n have ne: "set ps \<noteq> {}" by auto
    from n obtain p where p: "p \<in> set ps" "0 \<le> ?g p" by blast
    then have "?g p \<le> Max (?g ` set ps)" by (intro Max_ge) auto
    with p have ge: "1 \<le> Max (?g ` set ps) + 1" by linarith
    have "?f ` set ps = (\<lambda>x. x + 1) ` ?g ` set ps" by auto
    then have "Max (?f ` set ps) = Max (?g ` set ps) + 1"
      using ne mono_Max_commute [of "\<lambda>x::int. x + 1" "?g ` set ps"]
      by (simp add: mono_def)
    moreover have "sint (nextID ?r) = Max (insert 1 (?f ` set ps))"
      using 4 [OF b, of NewMemoryPostRepository] by (simp add: NewMemoryPostRepository_def)
    ultimately have "sint (nextID ?r) = Max (?g ` set ps) + 1"
      using ne ge by simp
    moreover have "fst (CreatePost ?r title content author)
        = Inr \<lparr>ID = nextID ?r, Title = title, Content = content, Author = author\<rparr>"
      using NewPost_valid [OF v] by (simp add: CreatePost_def Let_def)
    ultimately show ?thesis by simp
  qed
  from 1 2 3 4 5 show ?thesis by blast
qed

theorem LoadData_overwrites_and_advances_witness:
  "list_all (\<lambda>p. sint (ID p) < MaxInt)
     [\<lparr>ID = 1, Title = ''t'', Content = ''c'', Author = ''a''\<rparr>,
      \<lparr>ID = 3, Title = ''t'', Content = ''c'', Author = ''a''\<rparr>,
      \<lparr>ID = 1, Title = ''a'', Content = ''c'', Author = ''a''\<rparr>]
   \<and> posts (snd (LoadData NewMemoryPostRepository
        [\<lparr>ID = 1, Title = ''t'', Content = ''c'', Author = ''a''\<rparr>,
         \<lparr>ID = 3, Title = ''t'', Content = ''c'', Author = ''a''\<rparr>,
         \<lparr>ID = 1, Title = ''a'', Content = ''c'', Author = ''a''\<rparr>])) 1
       = Some \<lparr>ID = 1, Title = ''a'', Content = ''c'', Author = ''a''\<rparr>
   \<and> sint (nextID (snd (LoadData NewMemoryPostRepository
        [\<lparr>ID = 1, Title = ''t'', Content = ''c'', Author = ''a''\<rparr>,
         \<lparr>ID = 3, Title = ''t'', Content = ''c'', Author = ''a''\<rparr>,
         \<lparr>ID = 1, Title = ''a'', Content = ''c'', Author = ''a''\<rparr>]))) = 4
   \<and> (\<exists>q. fst (CreatePost (snd (LoadData NewMemoryPostRepository
              [\<lparr>ID = 1, Title = ''t'', Content = ''c'', Author = ''a''\<rparr>,
               \<lparr>ID = 3, Title = ''t'', Content = ''c'', Author = ''a''\<rparr>,
               \<lparr>ID = 1, Title = ''a'', Content = ''c'', Author = ''a''\<rparr>])) ''t'' ''c'' ''a'') = Inr q
          \<and> sint (ID q) = 4)"
proof -
  let ?p1 = "\<lparr>ID = 1, Title = ''t'', Content = ''c'', Author = ''a''\<rparr>"
  let ?p3 = "\<lparr>ID = 3, Title = ''t'', Content = ''c'', Author = ''a''\<rparr>"
  let ?p1' = "\<lparr>ID = 1, Title = ''a'', Content = ''c'', Author = ''a''\<rparr>"
  let ?ps = "[?p1, ?p3, ?p1']"
  let ?r = "snd (LoadData NewMemoryPostRepository ?ps)"
  note w = LoadData_overwrites_and_advances [of NewMemoryPostRepository ?ps 0 "''t''" "''c''" "''a''"]
  have b: "list_all (\<lambda>p. sint (ID p) < MaxInt) ?ps"
    by (simp add: MaxInt_def)
  have n: "\<exists>p \<in> set ?ps. 0 \<le> sint (ID p)"
    by simp
  have m: "?p1' \<in> set ?ps" by simp
  from w m have "posts ?r (ID ?p1') = find (\<lambda>q. ID q = ID ?p1') (rev ?ps)"
    by blast
  then have 1: "posts ?r 1 = Some ?p1'" by simp
  from w b have "sint (nextID ?r)
      = Max (insert (sint (nextID NewMemoryPostRepository)) ((\<lambda>p. sint (ID p) + 1) ` set ?ps))"
    by blast
  then have 2: "sint (nextID ?r) = 4"
    by (simp add: NewMemoryPostRepository_def)
  from w b n Validate_examples(2) [of 0]
  have "\<exists>q. fst (CreatePost ?r ''t'' ''c'' ''a'') = Inr q
          \<and> sint (ID q) = Max ((\<lambda>p. sint (ID p)) ` set ?ps) + 1"
    by blast
  then have 3: "\<exists>q. fst (CreatePost ?r ''t'' ''c'' ''a'') = Inr q \<and> sint (ID q) = 4"
    by simp
  from b 1 2 3 show ?thesis by blast
qed

section \<open>Enumeration in ascending order\<close>

lemma sint_inject: "sint (x :: goint) = sint y \<Longrightarrow> x = y"
  by (simp add: signed_word_eqI)

lemma keyed_new: "keyed NewMemoryPostRepository"
  by (simp add: NewMemoryPostRepository_def)

lemma find_ID_Some: "find (\<lambda>q. ID q = k) ps = Some p \<Longrightarrow> ID p = k"
  by (auto simp: find_Some_iff)

lemma keyed_exec:
  assumes "keyed r"
  shows "keyed (exec x r)"
proof (cases x)
  case (OpCreatePost t c a)
  with assms show ?thesis
    by (cases "Validate \<lparr>ID = nextID r, Title = t, Content = c, Author = a\<rparr>")
       (auto simp: CreatePost_def Let_def NewPost_def)
next
  case (OpCreate p)
  with assms show ?thesis by (auto simp: Create_def)
next
  case (OpUpdate i p)
  with assms show ?thesis by (auto simp: Repo_Update_def)
next
  case (OpDelete i)
  with assms show ?thesis by (auto simp: Delete_def)
next
  case (OpLoadData ps)
  with assms show ?thesis
    by (auto simp: LoadData_def LoadData_loop_posts split: option.splits dest: find_ID_Some)
qed

lemma keyed_run: "keyed r \<Longrightarrow> keyed (run xs r)"
proof (induction xs arbitrary: r)
  case Nil
  then show ?case by (simp add: run_def)
next
  case (Cons x xs)
  from Cons.IH [OF keyed_exec [OF Cons.prems, of x]] show ?case
    by (simp add: run_Cons)
qed

lemma map_filter_dom:
  "set ks \<subseteq> dom m \<Longrightarrow> List.map_filter m ks = map (\<lambda>k. the (m k)) ks"
  by (induction ks) (auto simp: List.map_filter_simps)

lemma collected_IDs:
  assumes "keyed r" and "rangeOrder (posts r) ks"
  shows "map ID (List.map_filter (posts r) ks) = ks"
    and "set (List.map_filter (posts r) ks) = ran (posts r)"
proof -
  from assms(2) have d: "set ks = dom (posts r)" by (simp add: rangeOrder_def)
  then have c: "List.map_filter (posts r) ks = map (\<lambda>k. the (posts r k)) ks"
    by (simp add: map_filter_dom)
  have "map ID (map (\<lambda>k. the (posts r k)) ks) = map (\<lambda>k. k) ks"
    unfolding map_map using assms(1) d by (intro map_cong) auto
  with c show "map ID (List.map_filter (posts r) ks) = ks" by simp
  have "(\<lambda>k. the (posts r k)) ` dom (posts r) = ran (posts r)"
    by (force simp: ran_def dom_def image_iff)
  with c d show "set (List.map_filter (posts r) ks) = ran (posts r)" by simp
qed

lemma GetAll_sorted:
  assumes "keyed r" and "rangeOrder (posts r) ks"
  shows "sorted_wrt (\<lambda>p q. sint (ID p) < sint (ID q)) (fst (GetAll ks r))"
    and "set (fst (GetAll ks r)) = ran (posts r)"
    and "length (fst (GetAll ks r)) = card (dom (posts r))"
    and "distinct (map ID (fst (GetAll ks r)))"
proof -
  let ?c = "List.map_filter (posts r) ks"
  let ?f = "\<lambda>p. sint (ID p)"
  let ?out = "sort_key ?f ?c"
  note ids = collected_IDs [OF assms]
  from assms(2) have dk: "distinct ks" and sk: "set ks = dom (posts r)"
    by (simp_all add: rangeOrder_def)
  have out: "fst (GetAll ks r) = ?out" by (simp add: GetAll_def)
  have "distinct (map ID ?c)" using ids(1) dk by simp
  then have dc: "distinct (map ?f ?c)"
    unfolding distinct_map by (auto simp: inj_on_def dest: sint_inject)
  from dc have do: "distinct (map ?f ?out)"
    by (simp add: distinct_map)
  have "sorted (map ?f ?out)" by simp
  with do have "sorted_wrt (<) (map ?f ?out)" by (simp add: strict_sorted_iff)
  then show "sorted_wrt (\<lambda>p q. sint (ID p) < sint (ID q)) (fst (GetAll ks r))"
    by (simp add: out sorted_wrt_map)
  show "set (fst (GetAll ks r)) = ran (posts r)"
    by (simp add: out ids(2))
  have "length ?c = length (map ID ?c)" by simp
  also have "\<dots> = length ks" by (simp only: ids(1))
  also have "\<dots> = card (dom (posts r))" using dk sk distinct_card by fastforce
  finally show "length (fst (GetAll ks r)) = card (dom (posts r))" by (simp add: out)
  from do show "distinct (map ID (fst (GetAll ks r)))"
    unfolding out by (simp add: distinct_map inj_on_def comp_def) 
qed

text \<open>A map reached by calls has finitely many keys, so the range statement has an order.\<close>

lemma finite_dom_LoadData_loop:
  "finite (dom (posts r)) \<Longrightarrow> finite (dom (posts (LoadData_loop r ps)))"
  by (induction ps arbitrary: r) simp_all

lemma finite_dom_exec:
  assumes "finite (dom (posts r))"
  shows "finite (dom (posts (exec x r)))"
proof (cases x)
  case (OpCreatePost t c a)
  with assms show ?thesis
    by (cases "Validate \<lparr>ID = nextID r, Title = t, Content = c, Author = a\<rparr>")
       (simp_all add: CreatePost_def Let_def NewPost_def)
next
  case (OpCreate p)
  with assms show ?thesis by (simp add: Create_def)
next
  case (OpUpdate i p)
  with assms show ?thesis by (simp add: Repo_Update_def)
next
  case (OpDelete i)
  with assms show ?thesis by (simp add: Delete_def)
next
  case (OpLoadData ps)
  with assms show ?thesis by (simp add: LoadData_def finite_dom_LoadData_loop)
qed

lemma finite_dom_run: "finite (dom (posts r)) \<Longrightarrow> finite (dom (posts (run xs r)))"
proof (induction xs arbitrary: r)
  case Nil
  then show ?case by (simp add: run_def)
next
  case (Cons x xs)
  from Cons.IH [OF finite_dom_exec [OF Cons.prems, of x]] show ?case
    by (simp add: run_Cons)
qed

lemma reachable_rangeOrder: "\<exists>ks. rangeOrder (posts (run xs NewMemoryPostRepository)) ks"
proof -
  have "finite (dom (posts NewMemoryPostRepository))"
    by (simp add: NewMemoryPostRepository_def)
  from finite_dom_run [OF this, of xs] finite_distinct_list show ?thesis
    unfolding rangeOrder_def by metis
qed

lemma GetAll_order_irrelevant:
  assumes "keyed r" and "rangeOrder (posts r) ks" and "rangeOrder (posts r) ks'"
  shows "GetAll ks' r = GetAll ks r"
proof -
  let ?f = "\<lambda>p. sint (ID p)"
  let ?a = "fst (GetAll ks r)" and ?b = "fst (GetAll ks' r)"
  note a = GetAll_sorted [OF assms(1,2)] and b = GetAll_sorted [OF assms(1,3)]
  have inj: "inj_on ?f (ran (posts r))"
  proof (rule inj_onI)
    fix p q
    assume "p \<in> ran (posts r)" "q \<in> ran (posts r)" "sint (ID p) = sint (ID q)"
    then obtain k l where "posts r k = Some p" "posts r l = Some q" and e: "ID p = ID q"
      by (auto simp: ran_def dest: sint_inject)
    with assms(1) have "posts r (ID p) = Some p" "posts r (ID p) = Some q"
      by auto
    then show "p = q" by simp
  qed
  have sa: "sorted_wrt (<) (map ?f ?a)" and sb: "sorted_wrt (<) (map ?f ?b)"
    using a(1) b(1) by (simp_all add: sorted_wrt_map)
  have "set (map ?f ?a) = set (map ?f ?b)"
    using a(2) b(2) by simp
  with sa sb have "map ?f ?a = map ?f ?b"
    by (intro sorted_distinct_set_unique) (simp_all add: strict_sorted_iff)
  moreover have "inj_on ?f (set ?a \<union> set ?b)"
    using inj a(2) b(2) by simp
  ultimately have "?a = ?b" by (rule map_inj_on)
  then show ?thesis by (simp add: GetAll_def)
qed

text \<open>
  Claim C6. For every repository reached from the new one by a sequence of calls, and
  every order \<open>ks\<close> in which the range statement may yield the keys: \<open>GetAll\<close> returns no
  error; its result is strictly ascending by ID; it holds exactly the stored posts, as
  many as the map has keys; and it is the same for every other iteration order. When the
  map is empty the result is the empty list. After inserting posts with the IDs 3, 1 and
  2 in this order, the result lists them in the order 1, 2, 3.
\<close>
theorem GetAll_ascending:
  assumes "rangeOrder (posts (run ops NewMemoryPostRepository)) ks"
  shows "snd (GetAll ks (run ops NewMemoryPostRepository)) = None
    \<and> sorted_wrt (\<lambda>p q. sint (ID p) < sint (ID q)) (fst (GetAll ks (run ops NewMemoryPostRepository)))
    \<and> set (fst (GetAll ks (run ops NewMemoryPostRepository)))
        = ran (posts (run ops NewMemoryPostRepository))
    \<and> length (fst (GetAll ks (run ops NewMemoryPostRepository)))
        = card (dom (posts (run ops NewMemoryPostRepository)))
    \<and> (\<forall>ks'. rangeOrder (posts (run ops NewMemoryPostRepository)) ks' \<longrightarrow>
          GetAll ks' (run ops NewMemoryPostRepository) = GetAll ks (run ops NewMemoryPostRepository))
    \<and> (posts (run ops NewMemoryPostRepository) = Map.empty \<longrightarrow>
          GetAll ks (run ops NewMemoryPostRepository) = ([], None))
    \<and> (\<forall>p1 p2 p3. ID p1 = 1 \<and> ID p2 = 2 \<and> ID p3 = 3
          \<and> ops = [OpCreate p3, OpCreate p1, OpCreate p2] \<longrightarrow>
          fst (GetAll ks (run ops NewMemoryPostRepository)) = [p1, p2, p3])"
proof -
  let ?r = "run ops NewMemoryPostRepository"
  have k: "keyed ?r" by (rule keyed_run [OF keyed_new])
  note s = GetAll_sorted [OF k assms]
  have 1: "snd (GetAll ks ?r) = None" by (simp add: GetAll_def)
  have 5: "GetAll ks' ?r = GetAll ks ?r" if "rangeOrder (posts ?r) ks'" for ks'
    by (rule GetAll_order_irrelevant [OF k assms that])
  have 6: "GetAll ks ?r = ([], None)" if "posts ?r = Map.empty"
  proof -
    from s(2) that have "fst (GetAll ks ?r) = []" by simp
    with 1 show ?thesis by (simp add: prod_eq_iff)
  qed
  have 7: "fst (GetAll ks ?r) = [p1, p2, p3]"
    if i: "ID p1 = 1" "ID p2 = 2" "ID p3 = 3" and o: "ops = [OpCreate p3, OpCreate p1, OpCreate p2]"
    for p1 p2 p3
  proof -
    have p: "posts ?r = [3 \<mapsto> p3, 1 \<mapsto> p1, 2 \<mapsto> p2]"
      by (simp add: o i run_def Create_def NewMemoryPostRepository_def)
    then have "rangeOrder (posts ?r) [3, 1, 2]"
      by (auto simp: rangeOrder_def)
    from 5 [OF this] have "fst (GetAll ks ?r) = fst (GetAll [3, 1, 2] ?r)" by simp
    also have "\<dots> = [p1, p2, p3]"
      by (simp add: GetAll_def p i List.map_filter_simps)
    finally show ?thesis .
  qed
  from 1 s(1,2,3) 5 6 7 show ?thesis by blast
qed

theorem GetAll_ascending_witness:
  "rangeOrder (posts (run [OpCreate \<lparr>ID = 3, Title = ''t'', Content = ''c'', Author = ''a''\<rparr>,
                            OpCreate \<lparr>ID = 1, Title = ''t'', Content = ''c'', Author = ''a''\<rparr>,
                            OpCreate \<lparr>ID = 2, Title = ''t'', Content = ''c'', Author = ''a''\<rparr>]
                        NewMemoryPostRepository)) [2, 3, 1]
   \<and> GetAll [2, 3, 1]
        (run [OpCreate \<lparr>ID = 3, Title = ''t'', Content = ''c'', Author = ''a''\<rparr>,
              OpCreate \<lparr>ID = 1, Title = ''t'', Content = ''c'', Author = ''a''\<rparr>,
              OpCreate \<lparr>ID = 2, Title = ''t'', Content = ''c'', Author = ''a''\<rparr>]
           NewMemoryPostRepository)
      = ([\<lparr>ID = 1, Title = ''t'', Content = ''c'', Author = ''a''\<rparr>,
          \<lparr>ID = 2, Title = ''t'', Content = ''c'', Author = ''a''\<rparr>,
          \<lparr>ID = 3, Title = ''t'', Content = ''c'', Author = ''a''\<rparr>], None)"
proof -
  let ?p1 = "\<lparr>ID = 1, Title = ''t'', Content = ''c'', Author = ''a''\<rparr>"
  let ?p2 = "\<lparr>ID = 2, Title = ''t'', Content = ''c'', Author = ''a''\<rparr>"
  let ?p3 = "\<lparr>ID = 3, Title = ''t'', Content = ''c'', Author = ''a''\<rparr>"
  let ?ops = "[OpCreate ?p3, OpCreate ?p1, OpCreate ?p2]"
  let ?r = "run ?ops NewMemoryPostRepository"
  have "posts ?r = [3 \<mapsto> ?p3, 1 \<mapsto> ?p1, 2 \<mapsto> ?p2]"
    by (simp add: run_def Create_def NewMemoryPostRepository_def)
  then have o: "rangeOrder (posts ?r) [2, 3, 1]"
    by (auto simp: rangeOrder_def)
  note w = GetAll_ascending [OF o]
  from w have 1: "snd (GetAll [2, 3, 1] ?r) = None" by blast
  have "ID ?p1 = 1 \<and> ID ?p2 = 2 \<and> ID ?p3 = 3 \<and> ?ops = [OpCreate ?p3, OpCreate ?p1, OpCreate ?p2]"
    by simp
  with w have 2: "fst (GetAll [2, 3, 1] ?r) = [?p1, ?p2, ?p3]" by blast
  from 1 2 have "GetAll [2, 3, 1] ?r = ([?p1, ?p2, ?p3], None)"
    by (simp add: prod_eq_iff)
  with o show ?thesis by blast
qed

section \<open>Callers and the repository share no pointer\<close>

lemma sep_new: "sep emptyHeap NewMemoryPostRepositoryP {}"
  by (simp add: sep_def emptyHeap_def NewMemoryPostRepositoryP_def)

lemma ran_upd_cases: "b \<in> ran (m(k \<mapsto> a)) \<Longrightarrow> b = a \<or> b \<in> ran m"
  by (auto simp: ran_def split: if_splits)

lemma ran_del_cases: "b \<in> ran (m(k := None)) \<Longrightarrow> b \<in> ran m"
  by (auto simp: ran_def split: if_splits)

lemma sep_fresh:
  assumes "sep h r H"
  shows "mem h (fresh h) = None" and "fresh h \<notin> H" and "fresh h \<notin> ran (postsP r)"
proof -
  from assms show f: "mem h (fresh h) = None"
    unfolding sep_def by (metis less_irrefl)
  from assms f show "fresh h \<notin> H" unfolding sep_def by blast
  from assms f show "fresh h \<notin> ran (postsP r)" unfolding sep_def by blast
qed

lemma alloc_eq: "alloc h v = (fresh h, h\<lparr>mem := (mem h)(fresh h \<mapsto> v), fresh := Suc (fresh h)\<rparr>)"
  by (simp add: alloc_def)

lemma sep_alloc_store:
  assumes "sep h r H" and "postsP r' = (postsP r)(k \<mapsto> fresh h)"
  shows "sep (snd (alloc h v)) r' H"
proof -
  note f = sep_fresh [OF assms(1)]
  have "a \<notin> ran ((postsP r)(k \<mapsto> fresh h))" if "a \<in> H" for a
    using that f(2) assms(1) ran_upd_cases [of a "postsP r" k "fresh h"]
    unfolding sep_def by blast
  moreover have "a = fresh h \<or> mem h a \<noteq> None" if "a \<in> ran ((postsP r)(k \<mapsto> fresh h))" for a
    using that assms(1) ran_upd_cases [of a "postsP r" k "fresh h"]
    unfolding sep_def by blast
  ultimately show ?thesis
    using assms unfolding sep_def alloc_eq
    by (simp add: less_Suc_eq) blast
qed

lemma sep_alloc_held:
  assumes "sep h r H"
  shows "sep (snd (alloc h v)) r (insert (fresh h) H)"
  using assms sep_fresh [OF assms] unfolding sep_def alloc_eq
  by (simp add: less_Suc_eq)

lemma sep_alloc_garbage:
  assumes "sep h r H"
  shows "sep (snd (alloc h v)) r H"
  using assms sep_fresh [OF assms] unfolding sep_def alloc_eq
  by (simp add: less_Suc_eq)

lemma sep_delete:
  assumes "sep h r H" and "postsP r' = (postsP r)(k := None)"
  shows "sep h r' H"
  using assms ran_del_cases [of _ "postsP r" k] unfolding sep_def
  by simp blast

lemma sep_same_map:
  assumes "sep h r H" and "postsP r' = postsP r"
  shows "sep h r' H"
  using assms unfolding sep_def by simp

lemma sep_assign:
  assumes "sep h r H" and "mem h a \<noteq> None"
  shows "sep (h\<lparr>mem := (mem h)(a \<mapsto> v)\<rparr>) r H"
  using assms unfolding sep_def by simp

subsection \<open>Every method keeps the separation\<close>

lemma CreateP_sep:
  assumes "sep h r H" and "CreateP h r a = Some (res, h1, r1)"
  shows "sep h1 r1 H"
proof -
  from assms(2) obtain v where v: "mem h a = Some v"
    by (auto simp: CreateP_def split: option.splits)
  show ?thesis
  proof (cases "postsP r (ID v) \<noteq> None")
    case True
    with assms v show ?thesis by (simp add: CreateP_def)
  next
    case False
    with assms(2) v have "h1 = snd (alloc h v)" and "postsP r1 = (postsP r)(ID v \<mapsto> fresh h)"
      by (auto simp: CreateP_def alloc_eq)
    with sep_alloc_store [OF assms(1)] show ?thesis by simp
  qed
qed

lemma UpdateP_sep:
  assumes "sep h r H" and "UpdateP h r i a = Some (res, h1, r1)"
  shows "sep h1 r1 H"
proof (cases "postsP r i = None")
  case True
  with assms show ?thesis by (simp add: UpdateP_def)
next
  case False
  with assms(2) obtain v where v: "mem h a = Some v"
    by (auto simp: UpdateP_def split: option.splits)
  with False assms(2)
  have "h1 = snd (alloc h (v\<lparr>ID := i\<rparr>))" and "postsP r1 = (postsP r)(i \<mapsto> fresh h)"
    by (auto simp: UpdateP_def alloc_eq)
  with sep_alloc_store [OF assms(1)] show ?thesis by simp
qed

lemma DeleteP_sep:
  assumes "sep h r H" and "DeleteP h r i = Some (res, h1, r1)"
  shows "sep h1 r1 H"
proof (cases "postsP r i = None")
  case True
  with assms show ?thesis by (simp add: DeleteP_def)
next
  case False
  with assms(2) have "h1 = h" and "postsP r1 = (postsP r)(i := None)"
    by (auto simp: DeleteP_def)
  with sep_delete [OF assms(1)] show ?thesis by simp
qed

lemma LoadDataP_loop_sep:
  "sep h r H \<Longrightarrow> LoadDataP_loop h r ps = Some (h1, r1) \<Longrightarrow> sep h1 r1 H"
proof (induction ps arbitrary: h r)
  case Nil
  then show ?case by simp
next
  case (Cons a ps)
  from Cons.prems(2) obtain v where v: "mem h a = Some v"
    by (auto split: option.splits)
  let ?n = "if sint (ID v) \<ge> sint (nextIDP r) then ID v + 1 else nextIDP r"
  let ?h = "snd (alloc h v)"
  let ?r = "r\<lparr>postsP := (postsP r)(ID v \<mapsto> fresh h), nextIDP := ?n\<rparr>"
  have s: "sep ?h ?r H" by (rule sep_alloc_store [OF Cons.prems(1)]) simp
  from Cons.prems(2) v have "LoadDataP_loop ?h ?r ps = Some (h1, r1)"
    by (simp add: alloc_eq)
  from Cons.IH [OF s this] show ?case .
qed

lemma LoadDataP_sep:
  assumes "sep h r H" and "LoadDataP h r ps = Some (res, h1, r1)"
  shows "sep h1 r1 H"
  using assms LoadDataP_loop_sep [of h r H ps h1 r1]
  by (auto simp: LoadDataP_def split: option.splits)

lemma GetByIDP_sep:
  assumes "sep h r H" and "GetByIDP h r i = Some (res, h1)"
  shows "case res of Inl err \<Rightarrow> sep h1 r H | Inr a \<Rightarrow> sep h1 r (insert a H) \<and> a = fresh h"
proof (cases "postsP r i")
  case None
  with assms show ?thesis by (auto simp: GetByIDP_def)
next
  case (Some p)
  with assms(2) obtain v where v: "mem h p = Some v"
    by (auto simp: GetByIDP_def split: option.splits)
  with Some assms(2) have "res = Inr (fresh h)" and "h1 = snd (alloc h v)"
    by (auto simp: GetByIDP_def alloc_eq)
  with sep_alloc_held [OF assms(1), of v] show ?thesis by simp
qed

lemma CreatePostP_sep:
  assumes "sep h r H" and "CreatePostP h r t c a = Some (res, h1, r1)"
  shows "case res of Inl err \<Rightarrow> sep h1 r1 H | Inr p \<Rightarrow> sep h1 r1 (insert p H)"
proof (cases "Validate \<lparr>ID = nextIDP r, Title = t, Content = c, Author = a\<rparr>")
  case (Some err)
  let ?v = "\<lparr>ID = nextIDP r, Title = t, Content = c, Author = a\<rparr>"
  from Some assms(2) have "res = Inl err" and "h1 = snd (alloc h ?v)" and "postsP r1 = postsP r"
    by (auto simp: CreatePostP_def NewPostP_def alloc_eq Let_def)
  with sep_same_map [OF sep_alloc_garbage [OF assms(1), of ?v], of r1] show ?thesis by simp
next
  case None
  let ?v = "\<lparr>ID = nextIDP r, Title = t, Content = c, Author = a\<rparr>"
  let ?h1 = "snd (alloc h ?v)"
  let ?h2 = "snd (alloc ?h1 ?v)"
  from None assms(2)
  have r: "res = Inr (fresh ?h2)" "h1 = snd (alloc ?h2 ?v)"
    "postsP r1 = (postsP r)(nextIDP r \<mapsto> fresh ?h1)"
    by (auto simp: CreatePostP_def NewPostP_def alloc_eq Let_def)
  have s1: "sep ?h1 r H" by (rule sep_alloc_garbage [OF assms(1)])
  have s2: "sep ?h2 r1 H" by (rule sep_alloc_store [OF s1 r(3)])
  have s3: "sep (snd (alloc ?h2 ?v)) r1 (insert (fresh ?h2) H)"
    by (rule sep_alloc_held [OF s2])
  with r show ?thesis by simp
qed

lemma GetAllP_loop_sep:
  "sep h r (set ps \<union> H) \<Longrightarrow> GetAllP_loop h r ks ps = Some (out, h1) \<Longrightarrow> sep h1 r (set out \<union> H)"
proof (induction ks arbitrary: h ps)
  case Nil
  then show ?case by simp
next
  case (Cons k ks)
  show ?case
  proof (cases "postsP r k")
    case None
    with Cons.prems(2) have "GetAllP_loop h r ks ps = Some (out, h1)" by simp
    from Cons.IH [OF Cons.prems(1) this] show ?thesis .
  next
    case (Some p)
    with Cons.prems(2) obtain v where v: "mem h p = Some v"
      by (auto split: option.splits)
    from Some v Cons.prems(2)
    have l: "GetAllP_loop (snd (alloc h v)) r ks (ps @ [fresh h]) = Some (out, h1)"
      by (simp add: alloc_eq)
    from sep_alloc_held [OF Cons.prems(1), of v]
    have "sep (snd (alloc h v)) r (set (ps @ [fresh h]) \<union> H)" by simp
    from Cons.IH [OF this l] show ?thesis .
  qed
qed

lemma GetAllP_sep:
  assumes "sep h r H" and "GetAllP ks h r = Some ((ps, err), h1)"
  shows "sep h1 r (set ps \<union> H)"
proof -
  from assms(2) obtain out where l: "GetAllP_loop h r ks [] = Some (out, h1)"
    and p: "ps = sort_key (idAt h1) out"
    by (auto simp: GetAllP_def split: option.splits)
  from assms(1) have "sep h r (set [] \<union> H)" by simp
  from GetAllP_loop_sep [OF this l] p show ?thesis by simp
qed

lemma act_sep:
  assumes "sep (heap w) (repo w) (held w)" and "possible x w" and "act x w = Some w1"
  shows "sep (heap w1) (repo w1) (held w1)"
proof (cases x)
  case (ANew v)
  with assms(3) sep_alloc_held [OF assms(1), of v] show ?thesis
    by (auto simp: alloc_eq)
next
  case (AAssign a v)
  with assms(3) sep_assign [OF assms(1), of a v] show ?thesis
    by (auto split: option.splits)
next
  case (ACreate a)
  with assms(3) CreateP_sep [OF assms(1)] show ?thesis
    by (auto split: option.splits)
next
  case (ACreatePost t c a)
  with assms(3) CreatePostP_sep [OF assms(1), of t c a] show ?thesis
    by (auto split: option.splits sum.splits)
next
  case (AGetByID i)
  with assms(3) GetByIDP_sep [OF assms(1), of i] show ?thesis
    by (auto split: option.splits sum.splits)
next
  case (AGetAll ks)
  with assms(3) GetAllP_sep [OF assms(1), of ks] show ?thesis
    by (auto split: option.splits)
next
  case (AUpdate i a)
  with assms(3) UpdateP_sep [OF assms(1)] show ?thesis
    by (auto split: option.splits)
next
  case (ADelete i)
  with assms(3) DeleteP_sep [OF assms(1)] show ?thesis
    by (auto split: option.splits)
next
  case (ALoadData ps)
  with assms(3) LoadDataP_sep [OF assms(1)] show ?thesis
    by (auto split: option.splits)
qed

lemma acts_sep:
  "sep (heap w) (repo w) (held w) \<Longrightarrow> acts xs w = Some w1 \<Longrightarrow> sep (heap w1) (repo w1) (held w1)"
proof (induction xs arbitrary: w)
  case Nil
  then show ?case by simp
next
  case (Cons x xs)
  from Cons.prems(2) obtain w' where p: "possible x w" and a: "act x w = Some w'"
    and r: "acts xs w' = Some w1"
    by (auto split: if_splits option.splits)
  from Cons.IH [OF act_sep [OF Cons.prems(1) p a] r] show ?case .
qed

lemma view_assign:
  "a \<notin> ran (postsP r) \<Longrightarrow> view (h\<lparr>mem := (mem h)(a \<mapsto> v)\<rparr>) r = view h r"
  by (auto simp: view_def ran_def fun_eq_iff split: option.splits)

lemma GetByIDP_value:
  assumes "sep h r H"
  shows "GetByIDP h r i =
     (case posts (view h r) i of
        None \<Rightarrow> Some (Inl ErrPostNotFound, h)
      | Some v \<Rightarrow> Some (Inr (fresh h), snd (alloc h v)))"
proof (cases "postsP r i")
  case None
  then show ?thesis by (simp add: GetByIDP_def view_def)
next
  case (Some p)
  then have "p \<in> ran (postsP r)" by (auto simp: ran_def)
  with assms obtain v where "mem h p = Some v" unfolding sep_def by blast
  with Some show ?thesis by (simp add: GetByIDP_def view_def alloc_eq)
qed

lemma view_alloc:
  assumes "sep h r H"
  shows "view (snd (alloc h v)) r = view h r"
proof -
  have "fresh h \<notin> ran (postsP r)" by (rule sep_fresh(3) [OF assms])
  then show ?thesis
    by (auto simp: view_def alloc_eq ran_def fun_eq_iff split: option.splits)
qed

section \<open>The two models agree\<close>

text \<open>
  Read through its pointers, the repository with pointers behaves as the repository of
  the first model: every method changes \<open>view\<close> as the method of the first model changes
  the repository, and returns the same error or a pointer to the same post.
\<close>

lemma view_store:
  assumes "sep h r H"
  shows "view (snd (alloc h v)) (r\<lparr>postsP := (postsP r)(k \<mapsto> fresh h), nextIDP := n\<rparr>)
           = (view h r)\<lparr>posts := (posts (view h r))(k \<mapsto> v), nextID := n\<rparr>"
proof -
  have "fresh h \<notin> ran (postsP r)" by (rule sep_fresh(3) [OF assms])
  then show ?thesis
    by (auto simp: view_def alloc_eq ran_def fun_eq_iff split: option.splits)
qed

lemma CreateP_refines:
  assumes "sep h r H" and "mem h a = Some v"
  shows "\<exists>h1 r1. CreateP h r a = Some (fst (Create (view h r) v), h1, r1)
                 \<and> view h1 r1 = snd (Create (view h r) v)"
proof (cases "postsP r (ID v)")
  case None
  let ?n = "if sint (ID v) \<ge> sint (nextIDP r) then ID v + 1 else nextIDP r"
  from None have "posts (view h r) (ID v) = None" by (simp add: view_def)
  moreover from view_store [OF assms(1), where v = v and k = "ID v" and n = ?n]
  have "view (snd (alloc h v)) (r\<lparr>postsP := (postsP r)(ID v \<mapsto> fresh h), nextIDP := ?n\<rparr>)
          = (view h r)\<lparr>posts := (posts (view h r))(ID v \<mapsto> v), nextID := ?n\<rparr>" .
  moreover have "nextID (view h r) = nextIDP r" by (simp add: view_def)
  ultimately show ?thesis
    using None assms(2) by (simp add: CreateP_def Create_def alloc_eq)
next
  case (Some p)
  then have "p \<in> ran (postsP r)" by (auto simp: ran_def)
  with assms(1) obtain u where "mem h p = Some u" unfolding sep_def by blast
  with Some have "posts (view h r) (ID v) \<noteq> None" by (simp add: view_def)
  with Some assms(2) show ?thesis by (simp add: CreateP_def Create_def)
qed

lemma UpdateP_refines:
  assumes "sep h r H" and "mem h a = Some v"
  shows "\<exists>h1 r1. UpdateP h r i a = Some (fst (Repo_Update (view h r) i v), h1, r1)
                 \<and> view h1 r1 = snd (Repo_Update (view h r) i v)"
proof (cases "postsP r i")
  case None
  then have "posts (view h r) i = None" by (simp add: view_def)
  with None show ?thesis by (simp add: UpdateP_def Repo_Update_def)
next
  case (Some p)
  then have "p \<in> ran (postsP r)" by (auto simp: ran_def)
  with assms(1) obtain u where "mem h p = Some u" unfolding sep_def by blast
  with Some have "posts (view h r) i \<noteq> None" by (simp add: view_def)
  moreover from view_store [OF assms(1), where v = "v\<lparr>ID := i\<rparr>" and k = i and n = "nextIDP r"]
  have "view (snd (alloc h (v\<lparr>ID := i\<rparr>))) (r\<lparr>postsP := (postsP r)(i \<mapsto> fresh h)\<rparr>)
          = (view h r)\<lparr>posts := (posts (view h r))(i \<mapsto> v\<lparr>ID := i\<rparr>)\<rparr>"
    by (simp add: view_def)
  ultimately show ?thesis
    using Some assms(2) by (simp add: UpdateP_def Repo_Update_def alloc_eq)
qed

lemma DeleteP_refines:
  assumes "sep h r H"
  shows "\<exists>h1 r1. DeleteP h r i = Some (fst (Delete (view h r) i), h1, r1)
                 \<and> view h1 r1 = snd (Delete (view h r) i)"
proof (cases "postsP r i")
  case None
  then have "posts (view h r) i = None" by (simp add: view_def)
  with None show ?thesis by (simp add: DeleteP_def Delete_def)
next
  case (Some p)
  then have "p \<in> ran (postsP r)" by (auto simp: ran_def)
  with assms(1) obtain u where "mem h p = Some u" unfolding sep_def by blast
  with Some have "posts (view h r) i \<noteq> None" by (simp add: view_def)
  moreover have "view h (r\<lparr>postsP := (postsP r)(i := None)\<rparr>)
                   = (view h r)\<lparr>posts := (posts (view h r))(i := None)\<rparr>"
    by (auto simp: view_def fun_eq_iff)
  ultimately show ?thesis
    using Some by (simp add: DeleteP_def Delete_def)
qed

lemma LoadDataP_loop_refines:
  "sep h r H \<Longrightarrow> list_all (\<lambda>a. mem h a \<noteq> None) ps \<Longrightarrow>
   \<exists>h1 r1. LoadDataP_loop h r ps = Some (h1, r1)
          \<and> view h1 r1 = LoadData_loop (view h r) (map (\<lambda>a. the (mem h a)) ps)"
proof (induction ps arbitrary: h r)
  case Nil
  then show ?case by simp
next
  case (Cons a ps)
  from Cons.prems(2) obtain v where v: "mem h a = Some v" by auto
  let ?n = "if sint (ID v) \<ge> sint (nextIDP r) then ID v + 1 else nextIDP r"
  let ?h = "snd (alloc h v)"
  let ?r = "r\<lparr>postsP := (postsP r)(ID v \<mapsto> fresh h), nextIDP := ?n\<rparr>"
  have s: "sep ?h ?r H" by (rule sep_alloc_store [OF Cons.prems(1)]) simp
  note f = sep_fresh [OF Cons.prems(1)]
  have same: "mem ?h b = mem h b" if "mem h b \<noteq> None" for b
    using that f(1) by (auto simp: alloc_eq)
  from Cons.prems(2) have l: "list_all (\<lambda>a. mem ?h a \<noteq> None) ps"
    by (auto simp: list_all_iff same)
  from Cons.prems(2) have m: "map (\<lambda>a. the (mem ?h a)) ps = map (\<lambda>a. the (mem h a)) ps"
    by (auto simp: list_all_iff same)
  from Cons.IH [OF s l] obtain h1 r1 where
    1: "LoadDataP_loop ?h ?r ps = Some (h1, r1)"
    and 2: "view h1 r1 = LoadData_loop (view ?h ?r) (map (\<lambda>a. the (mem ?h a)) ps)"
    by blast
  have 3: "view ?h ?r = (view h r)\<lparr>posts := (posts (view h r))(ID v \<mapsto> v), nextID := ?n\<rparr>"
    by (rule view_store [OF Cons.prems(1)])
  have 4: "nextID (view h r) = nextIDP r" by (simp add: view_def)
  from 1 v have "LoadDataP_loop h r (a # ps) = Some (h1, r1)"
    by (simp add: alloc_eq)
  moreover from 2 3 4 m v
  have "view h1 r1 = LoadData_loop (view h r) (map (\<lambda>a. the (mem h a)) (a # ps))"
    by simp
  ultimately show ?case by blast
qed

lemma LoadDataP_refines:
  assumes "sep h r H" and "list_all (\<lambda>a. mem h a \<noteq> None) ps"
  shows "\<exists>h1 r1. LoadDataP h r ps
                   = Some (fst (LoadData (view h r) (map (\<lambda>a. the (mem h a)) ps)), h1, r1)
                 \<and> view h1 r1 = snd (LoadData (view h r) (map (\<lambda>a. the (mem h a)) ps))"
  using LoadDataP_loop_refines [OF assms] by (auto simp: LoadDataP_def LoadData_def)

lemma CreatePostP_refines:
  assumes "sep h r H"
  shows "\<exists>res h1 r1. CreatePostP h r t c a = Some (res, h1, r1)
           \<and> view h1 r1 = snd (CreatePost (view h r) t c a)
           \<and> (case res of
                 Inl err \<Rightarrow> fst (CreatePost (view h r) t c a) = Inl err
               | Inr p \<Rightarrow> (\<exists>v. mem h1 p = Some v \<and> fst (CreatePost (view h r) t c a) = Inr v))"
proof -
  let ?v = "\<lparr>ID = nextIDP r, Title = t, Content = c, Author = a\<rparr>"
  let ?h1 = "snd (alloc h ?v)"
  have n: "nextID (view h r) = nextIDP r" by (simp add: view_def)
  have s1: "sep ?h1 r H" by (rule sep_alloc_garbage [OF assms])
  have v1: "view ?h1 r = view h r" by (rule view_alloc [OF assms])
  show ?thesis
  proof (cases "Validate ?v")
    case (Some err)
    have "view ?h1 (r\<lparr>nextIDP := nextIDP r + 1\<rparr>) = (view h r)\<lparr>nextID := nextIDP r + 1\<rparr>"
      using v1 by (simp add: view_def)
    with Some n show ?thesis
      by (simp add: CreatePostP_def NewPostP_def CreatePost_def NewPost_def alloc_eq Let_def)
  next
    case None
    let ?h2 = "snd (alloc ?h1 ?v)"
    let ?r2 = "r\<lparr>postsP := (postsP r)(nextIDP r \<mapsto> fresh ?h1), nextIDP := nextIDP r + 1\<rparr>"
    have s2: "sep ?h2 ?r2 H" by (rule sep_alloc_store [OF s1]) simp
    have "view ?h2 ?r2 = (view ?h1 r)\<lparr>posts := (posts (view ?h1 r))(nextIDP r \<mapsto> ?v),
                                      nextID := nextIDP r + 1\<rparr>"
      by (rule view_store [OF s1])
    with v1 have v2: "view ?h2 ?r2 = (view h r)\<lparr>posts := (posts (view h r))(nextIDP r \<mapsto> ?v),
                                      nextID := nextIDP r + 1\<rparr>" by simp
    have v3: "view (snd (alloc ?h2 ?v)) ?r2 = view ?h2 ?r2" by (rule view_alloc [OF s2])
    have c: "CreatePostP h r t c a = Some (Inr (fresh ?h2), snd (alloc ?h2 ?v), ?r2)"
      using None by (simp add: CreatePostP_def NewPostP_def alloc_eq Let_def)
    have d: "CreatePost (view h r) t c a
               = (Inr ?v, (view h r)\<lparr>nextID := nextIDP r + 1,
                                      posts := (posts (view h r))(nextIDP r \<mapsto> ?v)\<rparr>)"
      using None n by (simp add: CreatePost_def NewPost_def Let_def)
    have e: "mem (snd (alloc ?h2 ?v)) (fresh ?h2) = Some ?v" by (simp add: alloc_eq)
    from c d e v2 v3 show ?thesis by simp
  qed
qed

lemma map_insort_key:
  "map f (insort_key (\<lambda>x. g (f x)) a xs) = insort_key g (f a) (map f xs)"
  by (induction xs) simp_all

lemma map_sort_key:
  "map f (sort_key (\<lambda>x. g (f x)) xs) = sort_key g (map f xs)"
  by (induction xs) (simp_all add: map_insort_key)

lemma sort_key_cong_set:
  "(\<And>x. x \<in> set xs \<Longrightarrow> f x = g x) \<Longrightarrow> sort_key f xs = sort_key g xs"
proof (induction xs)
  case Nil
  show ?case by simp
next
  case (Cons a xs)
  then have eq: "sort_key f xs = sort_key g xs" by simp
  have "insort_key f a ys = insort_key g a ys" if "set ys \<subseteq> set (a # xs)" for ys
    using that Cons.prems by (induction ys) auto
  from this [of "sort_key g xs"] eq show ?case by auto
qed

lemma GetAllP_loop_refines:
  "sep h r (set acc \<union> H) \<Longrightarrow>
   \<exists>new h1. GetAllP_loop h r ks acc = Some (acc @ new, h1)
      \<and> map (\<lambda>a. the (mem h1 a)) new = List.map_filter (posts (view h r)) ks
      \<and> list_all (\<lambda>a. mem h1 a \<noteq> None) new
      \<and> (\<forall>a. mem h a \<noteq> None \<longrightarrow> mem h1 a = mem h a)
      \<and> view h1 r = view h r"
proof (induction ks arbitrary: h acc)
  case Nil
  then show ?case by (simp add: List.map_filter_simps)
next
  case (Cons k ks)
  show ?case
  proof (cases "postsP r k")
    case None
    then have "posts (view h r) k = None" by (simp add: view_def)
    with None Cons.IH [OF Cons.prems] show ?thesis
      by (simp add: List.map_filter_simps)
  next
    case (Some p)
    then have "p \<in> ran (postsP r)" by (auto simp: ran_def)
    with Cons.prems obtain v where v: "mem h p = Some v" unfolding sep_def by blast
    with Some have pv: "posts (view h r) k = Some v" by (simp add: view_def)
    let ?h = "snd (alloc h v)"
    note f = sep_fresh [OF Cons.prems]
    from sep_alloc_held [OF Cons.prems, of v]
    have s: "sep ?h r (set (acc @ [fresh h]) \<union> H)" by simp
    from Cons.IH [OF s] obtain new h1 where
      1: "GetAllP_loop ?h r ks (acc @ [fresh h]) = Some ((acc @ [fresh h]) @ new, h1)"
      and 2: "map (\<lambda>a. the (mem h1 a)) new = List.map_filter (posts (view ?h r)) ks"
      and 3: "list_all (\<lambda>a. mem h1 a \<noteq> None) new"
      and 4: "\<forall>a. mem ?h a \<noteq> None \<longrightarrow> mem h1 a = mem ?h a"
      and 5: "view h1 r = view ?h r"
      by blast
    have va: "view ?h r = view h r" by (rule view_alloc [OF Cons.prems])
    have m: "mem ?h (fresh h) = Some v" by (simp add: alloc_eq)
    with 4 have m1: "mem h1 (fresh h) = Some v" by simp
    have old: "mem h1 a = mem h a" if "mem h a \<noteq> None" for a
    proof -
      from that f(1) have "mem ?h a = mem h a" by (auto simp: alloc_eq)
      with that 4 show ?thesis by simp
    qed
    from 1 Some v have "GetAllP_loop h r (k # ks) acc = Some (acc @ (fresh h # new), h1)"
      by (simp add: alloc_eq)
    moreover from 2 va pv m1
    have "map (\<lambda>a. the (mem h1 a)) (fresh h # new) = List.map_filter (posts (view h r)) (k # ks)"
      by (simp add: List.map_filter_simps)
    moreover from 3 m1 have "list_all (\<lambda>a. mem h1 a \<noteq> None) (fresh h # new)" by simp
    ultimately show ?thesis using old 5 va by auto
  qed
qed

lemma GetAllP_refines:
  assumes "sep h r H"
  shows "\<exists>ps h1. GetAllP ks h r = Some ((ps, snd (GetAll ks (view h r))), h1)
           \<and> map (\<lambda>a. the (mem h1 a)) ps = fst (GetAll ks (view h r))
           \<and> view h1 r = view h r"
proof -
  from assms have "sep h r (set [] \<union> H)" by simp
  from GetAllP_loop_refines [OF this, of ks] obtain new h1 where
    1: "GetAllP_loop h r ks [] = Some (new, h1)"
    and 2: "map (\<lambda>a. the (mem h1 a)) new = List.map_filter (posts (view h r)) ks"
    and 3: "list_all (\<lambda>a. mem h1 a \<noteq> None) new"
    and 5: "view h1 r = view h r"
    by auto
  let ?d = "\<lambda>a. the (mem h1 a)"
  have "sort_key (idAt h1) new = sort_key (\<lambda>a. sint (ID (?d a))) new"
    using 3 by (intro sort_key_cong_set) (auto simp: idAt_def list_all_iff)
  then have "map ?d (sort_key (idAt h1) new) = sort_key (\<lambda>p. sint (ID p)) (map ?d new)"
    using map_sort_key [of ?d "\<lambda>p. sint (ID p)" new] by simp
  with 1 2 5 show ?thesis
    by (simp add: GetAllP_def GetAll_def)
qed

section \<open>The repository never writes to a post it has handed out\<close>

lemma sep_bounded: "sep h r H \<Longrightarrow> bounded h"
  unfolding sep_def by blast

lemma alloc_extends: "bounded h \<Longrightarrow> extends h (snd (alloc h v)) \<and> bounded (snd (alloc h v))"
  by (auto simp: alloc_eq less_Suc_eq)

lemma extends_trans: "extends h h1 \<Longrightarrow> extends h1 h2 \<Longrightarrow> extends h h2"
  by metis

lemma CreateP_extends:
  "bounded h \<Longrightarrow> CreateP h r a = Some (res, h1, r1) \<Longrightarrow> extends h h1"
  by (auto simp: CreateP_def alloc_eq split: option.splits if_splits)

lemma UpdateP_extends:
  "bounded h \<Longrightarrow> UpdateP h r i a = Some (res, h1, r1) \<Longrightarrow> extends h h1"
  by (auto simp: UpdateP_def alloc_eq split: option.splits if_splits)

lemma DeleteP_extends:
  "DeleteP h r i = Some (res, h1, r1) \<Longrightarrow> extends h h1"
  by (auto simp: DeleteP_def split: if_splits)

lemma GetByIDP_extends:
  "bounded h \<Longrightarrow> GetByIDP h r i = Some (res, h1) \<Longrightarrow> extends h h1"
  by (auto simp: GetByIDP_def alloc_eq split: option.splits)

lemma CreatePostP_extends:
  assumes "bounded h" and "CreatePostP h r t c a = Some (res, h1, r1)"
  shows "extends h h1"
proof -
  let ?v = "\<lparr>ID = nextIDP r, Title = t, Content = c, Author = a\<rparr>"
  let ?h1 = "snd (alloc h ?v)" 
  let ?h2 = "snd (alloc ?h1 ?v)"
  let ?h3 = "snd (alloc ?h2 ?v)"
  note 1 = alloc_extends [OF assms(1), of ?v]
  note 2 = alloc_extends [OF 1 [THEN conjunct2], of ?v]
  note 3 = alloc_extends [OF 2 [THEN conjunct2], of ?v]
  from 1 2 3 have e: "extends h ?h1" "extends h ?h3"
    by metis+
  from assms(2) have "h1 = ?h1 \<or> h1 = ?h3"
    by (cases "Validate ?v") (auto simp: CreatePostP_def NewPostP_def alloc_eq Let_def)
  with e show ?thesis by blast
qed

lemma LoadDataP_loop_extends:
  "bounded h \<Longrightarrow> LoadDataP_loop h r ps = Some (h1, r1) \<Longrightarrow> extends h h1"
proof (induction ps arbitrary: h r)
  case Nil
  then show ?case by simp
next
  case (Cons a ps)
  from Cons.prems(2) obtain v where v: "mem h a = Some v"
    by (auto split: option.splits)
  let ?h = "snd (alloc h v)"
  note e = alloc_extends [OF Cons.prems(1), of v]
  from Cons.prems(2) v obtain r' where "LoadDataP_loop ?h r' ps = Some (h1, r1)"
    by (auto simp: alloc_eq)
  from Cons.IH [OF e [THEN conjunct2] this] e [THEN conjunct1] show ?case
    by metis
qed

lemma GetAllP_loop_extends:
  "bounded h \<Longrightarrow> GetAllP_loop h r ks acc = Some (out, h1) \<Longrightarrow> extends h h1"
proof (induction ks arbitrary: h acc)
  case Nil
  then show ?case by simp
next
  case (Cons k ks)
  show ?case
  proof (cases "postsP r k")
    case None
    with Cons.prems(2) have "GetAllP_loop h r ks acc = Some (out, h1)" by simp
    from Cons.IH [OF Cons.prems(1) this] show ?thesis .
  next
    case (Some p)
    with Cons.prems(2) obtain v where v: "mem h p = Some v"
      by (auto split: option.splits)
    let ?h = "snd (alloc h v)"
    note e = alloc_extends [OF Cons.prems(1), of v]
    from Cons.prems(2) Some v have "GetAllP_loop ?h r ks (acc @ [fresh h]) = Some (out, h1)"
      by (simp add: alloc_eq)
    from Cons.IH [OF e [THEN conjunct2] this] e [THEN conjunct1] show ?thesis
      by metis
  qed
qed

lemma act_extends:
  assumes "bounded (heap w)" and "act x w = Some w1" and "\<forall>b v. x \<noteq> AAssign b v"
  shows "extends (heap w) (heap w1)"
proof (cases x)
  case (ANew v)
  with assms(2) alloc_extends [OF assms(1), of v] show ?thesis
    by (auto simp: alloc_eq)
next
  case (AAssign a v)
  with assms(3) show ?thesis by simp
next
  case (ACreate a)
  with assms(2) CreateP_extends [OF assms(1)] show ?thesis
    by (auto split: option.splits)
next
  case (ACreatePost t c a)
  with assms(2) CreatePostP_extends [OF assms(1), of _ t c a] show ?thesis
    by (auto split: option.splits sum.splits)
next
  case (AGetByID i)
  with assms(2) GetByIDP_extends [OF assms(1), of _ i] show ?thesis
    by (auto split: option.splits sum.splits)
next
  case (AGetAll ks)
  with assms(2) GetAllP_loop_extends [OF assms(1), of _ ks "[]"] show ?thesis
    by (auto simp: GetAllP_def split: option.splits)
next
  case (AUpdate i a)
  with assms(2) UpdateP_extends [OF assms(1)] show ?thesis
    by (auto split: option.splits)
next
  case (ADelete i)
  with assms(2) DeleteP_extends [of "heap w"] show ?thesis
    by (auto split: option.splits)
next
  case (ALoadData ps)
  with assms(2) LoadDataP_loop_extends [OF assms(1)] show ?thesis
    by (auto simp: LoadDataP_def split: option.splits)
qed

text \<open>
  Claim C8. Start from the new repository and let callers act in any way: build posts,
  assign to posts they hold, call any method with pointers they hold. At every moment
  no pointer a caller holds, whether it made it, passed it to the repository or received
  it from \<open>GetByID\<close>, \<open>GetAll\<close> or \<open>CreatePost\<close>, is a pointer the repository keeps in its
  map. So an assignment through any pointer a caller holds leaves everything the
  repository holds unchanged. In particular the pointer \<open>GetByID\<close> returns is not in the
  map, it points to a copy of the stored post, and after any assignment through it
  \<open>GetByID\<close> of the same id returns the same post as before. In the other direction, no
  call of a method changes a post a caller holds.
\<close>
theorem callers_cannot_reach_store:
  assumes "acts xs newWorld = Some w"
  shows "held w \<inter> ran (postsP (repo w)) = {}
    \<and> (\<forall>a v. a \<in> held w \<longrightarrow>
          (\<exists>w1. act (AAssign a v) w = Some w1
                \<and> view (heap w1) (repo w1) = view (heap w) (repo w)))
    \<and> (\<forall>i a h1. GetByIDP (heap w) (repo w) i = Some (Inr a, h1) \<longrightarrow>
          a \<notin> ran (postsP (repo w))
          \<and> mem h1 a = posts (view (heap w) (repo w)) i
          \<and> (\<forall>v. \<exists>a2 h2. GetByIDP (h1\<lparr>mem := (mem h1)(a \<mapsto> v)\<rparr>) (repo w) i = Some (Inr a2, h2)
                          \<and> mem h2 a2 = mem h1 a))
    \<and> (\<forall>x w1 a. (\<forall>b v. x \<noteq> AAssign b v) \<and> act x w = Some w1 \<and> a \<in> held w \<longrightarrow>
          mem (heap w1) a = mem (heap w) a)"
proof -
  let ?h = "heap w" and ?r = "repo w" and ?H = "held w"
  have "sep (heap newWorld) (repo newWorld) (held newWorld)"
    using sep_new by (simp add: newWorld_def)
  from acts_sep [OF this assms] have s: "sep ?h ?r ?H" .
  from s have 1: "?H \<inter> ran (postsP ?r) = {}"
    unfolding sep_def by blast
  have 2: "\<exists>w1. act (AAssign a v) w = Some w1 \<and> view (heap w1) (repo w1) = view ?h ?r"
    if "a \<in> ?H" for a v
  proof -
    from s that obtain u where "mem ?h a = Some u" and "a \<notin> ran (postsP ?r)"
      unfolding sep_def by blast
    then show ?thesis by (simp add: view_assign)
  qed
  have 3: "a \<notin> ran (postsP ?r) \<and> mem h1 a = posts (view ?h ?r) i
      \<and> (\<forall>v. \<exists>a2 h2. GetByIDP (h1\<lparr>mem := (mem h1)(a \<mapsto> v)\<rparr>) ?r i = Some (Inr a2, h2)
                     \<and> mem h2 a2 = mem h1 a)"
    if g: "GetByIDP ?h ?r i = Some (Inr a, h1)" for i a h1
  proof -
    from g GetByIDP_value [OF s, of i] obtain u where u: "posts (view ?h ?r) i = Some u"
      and a: "a = fresh ?h" and h1: "h1 = snd (alloc ?h u)"
      by (auto split: option.splits)
    have n: "a \<notin> ran (postsP ?r)" unfolding a by (rule sep_fresh(3) [OF s])
    have m: "mem h1 a = Some u" by (simp add: h1 a alloc_eq)
    have s1: "sep h1 ?r (insert a ?H)"
      unfolding h1 a by (rule sep_alloc_held [OF s])
    have "\<exists>a2 h2. GetByIDP (h1\<lparr>mem := (mem h1)(a \<mapsto> v)\<rparr>) ?r i = Some (Inr a2, h2)
            \<and> mem h2 a2 = mem h1 a" for v
    proof -
      let ?h' = "h1\<lparr>mem := (mem h1)(a \<mapsto> v)\<rparr>"
      from m have "mem h1 a \<noteq> None" by simp
      from sep_assign [OF s1 this] have s2: "sep ?h' ?r (insert a ?H)" .
      have "view ?h' ?r = view h1 ?r" by (rule view_assign [OF n])
      also have "\<dots> = view ?h ?r" unfolding h1 by (rule view_alloc [OF s])
      finally have "posts (view ?h' ?r) i = Some u" using u by simp
      with GetByIDP_value [OF s2, of i]
      have "GetByIDP ?h' ?r i = Some (Inr (fresh ?h'), snd (alloc ?h' u))" by simp
      moreover have "mem (snd (alloc ?h' u)) (fresh ?h') = Some u" by (simp add: alloc_eq)
      ultimately show ?thesis using m by simp
    qed
    with n m u show ?thesis by simp
  qed
  have 4: "mem (heap w1) a = mem ?h a"
    if "\<forall>b v. x \<noteq> AAssign b v" and "act x w = Some w1" and "a \<in> ?H" for x w1 a
  proof -
    from s that(3) have "mem ?h a \<noteq> None" unfolding sep_def by blast
    with act_extends [OF sep_bounded [OF s] that(2,1)] show ?thesis by blast
  qed
  from 1 2 3 4 show ?thesis by blast
qed

theorem callers_cannot_reach_store_witness:
  "\<exists>w. acts [ANew \<lparr>ID = 5, Title = ''t'', Content = ''c'', Author = ''a''\<rparr>, ACreate 1, AGetByID 5]
          newWorld = Some w
       \<and> held w = {1, 3}
       \<and> GetByID (view (heap w) (repo w)) 5
           = Inr \<lparr>ID = 5, Title = ''t'', Content = ''c'', Author = ''a''\<rparr>
       \<and> held w \<inter> ran (postsP (repo w)) = {}
       \<and> (\<exists>w1. act (AAssign 3 \<lparr>ID = 5, Title = ''a'', Content = ''c'', Author = ''a''\<rparr>) w = Some w1
                \<and> view (heap w1) (repo w1) = view (heap w) (repo w))"
proof -
  let ?p = "\<lparr>ID = 5, Title = ''t'', Content = ''c'', Author = ''a''\<rparr>"
  let ?q = "\<lparr>ID = 5, Title = ''a'', Content = ''c'', Author = ''a''\<rparr>"
  let ?xs = "[ANew ?p, ACreate 1, AGetByID 5]"
  have "\<exists>w. acts ?xs newWorld = Some w \<and> held w = {1, 3}
            \<and> GetByID (view (heap w) (repo w)) 5 = Inr ?p"
    by (simp add: newWorld_def emptyHeap_def NewMemoryPostRepositoryP_def alloc_def nil_def
        CreateP_def GetByIDP_def GetByID_def view_def insert_commute eval_nat_numeral)
  then obtain w where w: "acts ?xs newWorld = Some w" and h: "held w = {1, 3}"
    and g: "GetByID (view (heap w) (repo w)) 5 = Inr ?p"
    by blast
  note t = callers_cannot_reach_store [OF w]
  from t have 1: "held w \<inter> ran (postsP (repo w)) = {}" by blast
  from h have "3 \<in> held w" by simp
  with t have 2: "\<exists>w1. act (AAssign 3 ?q) w = Some w1
                    \<and> view (heap w1) (repo w1) = view (heap w) (repo w)"
    by blast
  from w h g 1 2 show ?thesis by blast
qed

end
